theory Spec2Isabelle
  imports Main
begin

section \<open>Reconciliation state (state.ts)\<close>

text \<open>
  The class \<open>State\<close>: one object per Todoist task id. The constructor leaves
  \<open>synced = false\<close> and \<open>retryAttempts = 0\<close>. The counter is a JavaScript number that
  starts at 0 and is only ever incremented, reset to 0, or copied from a persisted entry;
  it is modelled as a natural number.
\<close>

record State =
  todoistId :: string
  checkboxState :: bool
  synced :: bool
  retryAttempts :: nat

definition newState :: "string \<Rightarrow> bool \<Rightarrow> State" where
  "newState tid cb = \<lparr>todoistId = tid, checkboxState = cb, synced = False, retryAttempts = 0\<rparr>"

text \<open>
  \<open>nextRetryDelay\<close>: \<open>Math.min(base * Math.pow(2, this.retryAttempts), cap)\<close> with
  \<open>base = 5_000\<close> and \<open>cap = 5 * 60_000\<close>, in milliseconds.
\<close>

definition nextRetryDelay :: "State \<Rightarrow> nat" where
  "nextRetryDelay s =
     (let base = 5000; cap = 5 * 60000
      in min (base * 2 ^ retryAttempts s) cap)"

subsection \<open>The backoff formula\<close>

text \<open>
  C3: for every retry count \<open>n\<close>, the delay computed on a state with
  \<open>retryAttempts = n\<close> is \<open>min (5000 * 2 ^ n) 300000\<close> milliseconds, whatever the other
  fields of the state are; the function reads the state and changes nothing.
\<close>

theorem nextRetryDelay_formula:
  "nextRetryDelay (s\<lparr>retryAttempts := n\<rparr>) = min (5000 * 2 ^ n) 300000"
  by (simp add: nextRetryDelay_def)

text \<open>
  The delay doubles from 5 seconds up to 160 seconds at five retries; from six retries on
  it is the cap.
\<close>

lemma nextRetryDelay_cases:
  "nextRetryDelay s = (if retryAttempts s \<le> 5 then 5000 * 2 ^ retryAttempts s else 300000)"
proof (cases "retryAttempts s \<le> 5")
  case True
  then have "(2::nat) ^ retryAttempts s \<le> 2 ^ 5"
    by (intro power_increasing) simp_all
  then have "5000 * (2::nat) ^ retryAttempts s \<le> 300000" by simp
  with True show ?thesis by (simp add: nextRetryDelay_def)
next
  case False
  then have "(2::nat) ^ 6 \<le> 2 ^ retryAttempts s"
    by (intro power_increasing) simp_all
  then have "300000 \<le> 5000 * (2::nat) ^ retryAttempts s" by simp
  with False show ?thesis by (simp add: nextRetryDelay_def)
qed


section \<open>The plugin's state and its asynchronous steps (main.ts)\<close>

subsection \<open>The store \<open>taskStates\<close>\<close>

text \<open>
  \<open>taskStates: Record<string, State>\<close> is a JavaScript object used as a dictionary from
  task ids to \<open>State\<close> objects. The \<open>State\<close> objects are shared: a pending timer and a
  sync attempt in flight hold the object itself, not its id. So the objects live in a
  heap, and the store maps an id to the address of its object. The store is the list of
  the object's own properties in the order they were created, and \<open>store_get\<close> finds an
  own property.
\<close>

type_synonym addr = nat
type_synonym store = "(string \<times> addr) list"

definition store_get :: "store \<Rightarrow> string \<Rightarrow> addr option" where
  "store_get kvs k = map_of kvs k"

text \<open>
  The object is created as \<open>{}\<close>, so it inherits from \<open>Object.prototype\<close>, and the
  expression \<open>this.taskStates[k]\<close> of line 122 reads through to it: for a name that is not
  an own property it yields the member of \<open>Object.prototype\<close> of that name, if there is
  one, and \<open>undefined\<close> otherwise. These are the names \<open>Object.prototype\<close> has.
\<close>

definition inheritedNames :: "string list" where
  "inheritedNames =
     [''constructor'', ''__defineGetter__'', ''__defineSetter__'', ''hasOwnProperty'',
      ''__lookupGetter__'', ''__lookupSetter__'', ''isPrototypeOf'', ''propertyIsEnumerable'',
      ''toString'', ''valueOf'', ''__proto__'', ''toLocaleString'']"

datatype lookup = Undefined | Own addr | Inherited string

definition store_read :: "store \<Rightarrow> string \<Rightarrow> lookup" where
  "store_read kvs k =
     (case store_get kvs k of
        Some a \<Rightarrow> Own a
      | None \<Rightarrow> if k \<in> set inheritedNames then Inherited k else Undefined)"

text \<open>
  All inherited members but \<open>__proto__\<close> are function objects. None of them has a
  \<open>checkboxState\<close>, \<open>synced\<close> or \<open>retryAttempts\<close> of its own to begin with
  (reading one gives \<open>undefined\<close>), none has a \<open>todoistId\<close> or a \<open>nextRetryDelay\<close>, and
  each takes the properties assigned to it. Incrementing \<open>undefined\<close> gives \<open>NaN\<close>.
\<close>

datatype counter = NoCount | NaN | Count nat

fun increment :: "counter \<Rightarrow> counter" where
  "increment NoCount = NaN"
| "increment NaN = NaN"
| "increment (Count n) = Count (Suc n)"

record Builtin =
  own_checkboxState :: "bool option"
  own_synced :: "bool option"
  own_retryAttempts :: counter

text \<open>
  The member \<open>__proto__\<close> is \<open>Object.prototype\<close> itself, which every other object
  inherits from, and assigning to \<open>taskStates['__proto__']\<close> replaces the prototype of the
  store instead of adding a property. These two cases are not modelled: an event that
  would read the inherited \<open>__proto__\<close> or assign to it is not enabled. The change
  handler never passes this id (an id matches \<open>[a-zA-Z0-9]+\<close>).
\<close>

definition readsPrototype :: "store \<Rightarrow> string \<Rightarrow> bool" where
  "readsPrototype kvs k \<longleftrightarrow> store_read kvs k = Inherited ''__proto__''"

text \<open>\<open>taskStates[k] = v\<close>: an existing property keeps its place, a new one goes last.\<close>

fun store_put :: "store \<Rightarrow> string \<Rightarrow> addr \<Rightarrow> store" where
  "store_put [] k a = [(k, a)]"
| "store_put ((k', a') # kvs) k a =
     (if k' = k then (k, a) # kvs else (k', a') # store_put kvs k a)"

text \<open>
  \<open>Object.values\<close> lists the properties whose names are array indices (canonical
  decimal numerals below \<open>2^32 - 1\<close>) in ascending numeric order, then all others in
  creation order.
\<close>

definition isDigit :: "char \<Rightarrow> bool" where
  "isDigit c \<longleftrightarrow> c \<in> set ''0123456789''"

definition toNat :: "string \<Rightarrow> nat" where
  "toNat s = foldl (\<lambda>n c. 10 * n + (of_char c - 48)) 0 s"

definition isArrayIndex :: "string \<Rightarrow> bool" where
  "isArrayIndex k \<longleftrightarrow>
     k \<noteq> [] \<and> list_all isDigit k \<and> (length k = 1 \<or> hd k \<noteq> CHR ''0'') \<and> toNat k < 4294967295"

definition Object_values :: "store \<Rightarrow> addr list" where
  "Object_values kvs =
     map snd (sort_key (\<lambda>kv. toNat (fst kv)) (filter (\<lambda>kv. isArrayIndex (fst kv)) kvs) @
              filter (\<lambda>kv. \<not> isArrayIndex (fst kv)) kvs)"

subsection \<open>Remote calls, attempts in flight, timers\<close>

datatype remote_call =
    GetTask string
  | CloseTask string
  | ReopenTask string
  | AddTask string
  | GetProject string
  | GetTaskUndefined
  | CloseTaskUndefined
  | ReopenTaskUndefined

text \<open>
  The interface \<open>PersistedSyncEntry\<close>: \<open>todoistId\<close>, \<open>checkboxState\<close>,
  \<open>retryAttempts\<close>.
\<close>

datatype PersistedSyncEntry =
  PersistedSyncEntry (entry_todoistId: string) (entry_checkboxState: bool) (entry_retryAttempts: nat)

text \<open>
  \<open>syncState\<close> is an \<open>async\<close> function: it runs until it awaits a remote call and is
  resumed when that call resolves or rejects; other events run in between. An activation
  of \<open>syncState\<close> records the state object it works on, the call it is waiting for, and
  who awaits it: nobody that does anything afterwards (\<open>updateState\<close> and the timer
  callback), or the loop of \<open>restorePendingSyncs\<close> with the entries it has still to
  process. An activation keeps its index for good, as a timer keeps its id.
\<close>

datatype await_point = AwaitGetTask | AwaitCloseTask | AwaitReopenTask | Finished

datatype caller = Detached | RestoreLoop "PersistedSyncEntry list"

datatype activation = Activation (act_state: addr) (act_at: await_point) (act_caller: caller)

datatype timer = Timer (timer_state: addr) (timer_delay: nat) (timer_pending: bool)

text \<open>
  An activation of \<open>syncState\<close> on an inherited member, which \<open>updateState\<close> alone
  starts and awaits: it either returns or, when its \<open>catch\<close> block fails, rejects.
\<close>

datatype builtin_point =
  BuiltinAwaitGetTask | BuiltinAwaitCloseTask | BuiltinAwaitReopenTask | Returned | Rejected

datatype builtin_activation = BuiltinActivation (bact_name: string) (bact_at: builtin_point)

text \<open>\<open>new Notice(...)\<close>: the attempt number and the delay in seconds shown to the user.\<close>

datatype notice = Notice nat nat

record world =
  taskStates :: store
  heap :: "addr \<Rightarrow> State"
  nextAddr :: addr
  attempts :: "activation list"
  timers :: "timer list"
  calls :: "remote_call list"
  notices :: "notice list"
  builtins :: "string \<Rightarrow> Builtin"
  builtinAttempts :: "builtin_activation list"

text \<open>\<open>onload\<close> sets \<open>this.taskStates = {}\<close>; nothing is in flight.\<close>

definition emptyWorld :: world where
  "emptyWorld = \<lparr>taskStates = [], heap = (\<lambda>_. newState [] False), nextAddr = 0,
     attempts = [], timers = [], calls = [], notices = [],
     builtins = (\<lambda>_. \<lparr>own_checkboxState = None, own_synced = None, own_retryAttempts = NoCount\<rparr>),
     builtinAttempts = []\<rparr>"

subsection \<open>\<open>syncState\<close>\<close>

text \<open>
  Line 142: the call \<open>syncState(state)\<close> issues \<open>getTask(state.todoistId)\<close> and
  suspends.
\<close>

definition syncState :: "addr \<Rightarrow> caller \<Rightarrow> world \<Rightarrow> world" where
  "syncState a c w =
     w\<lparr>calls := calls w @ [GetTask (todoistId (heap w a))],
       attempts := attempts w @ [Activation a AwaitGetTask c]\<rparr>"

text \<open>
  Lines 104--110, the loop of \<open>restorePendingSyncs\<close> from an entry on: build the state,
  store it under its id, call \<open>syncState\<close> and await it. The rest of the loop runs when
  that activation returns.
\<close>

fun restoreLoop :: "PersistedSyncEntry list \<Rightarrow> world \<Rightarrow> world" where
  "restoreLoop [] w = w"
| "restoreLoop (e # es) w =
     (let a = nextAddr w;
          state = (newState (entry_todoistId e) (entry_checkboxState e))
                    \<lparr>synced := False, retryAttempts := entry_retryAttempts e\<rparr>;
          w1 = w\<lparr>heap := (heap w)(a := state), nextAddr := Suc a,
                 taskStates := store_put (taskStates w) (entry_todoistId e) a\<rparr>
      in syncState a (RestoreLoop es) w1)"

text \<open>An activation returns to whoever awaits it.\<close>

fun resume :: "caller \<Rightarrow> world \<Rightarrow> world" where
  "resume Detached w = w"
| "resume (RestoreLoop es) w = restoreLoop es w"

definition finish :: "nat \<Rightarrow> world \<Rightarrow> world" where
  "finish k w =
     (case attempts w ! k of
        Activation a p c \<Rightarrow> resume c (w\<lparr>attempts := (attempts w)[k := Activation a Finished c]\<rparr>))"

text \<open>Lines 149--150: \<open>state.synced = true; state.retryAttempts = 0\<close>, and return.\<close>

definition syncState_done :: "nat \<Rightarrow> world \<Rightarrow> world" where
  "syncState_done k w =
     (let a = act_state (attempts w ! k)
      in finish k (w\<lparr>heap := (heap w)(a := (heap w a)\<lparr>synced := True, retryAttempts := 0\<rparr>)\<rparr>))"

text \<open>
  Lines 151--158, the \<open>catch\<close> block: count the failure, compute the delay from the new
  count, show the notice, set the timer, and return.
\<close>

definition syncState_catch :: "nat \<Rightarrow> world \<Rightarrow> world" where
  "syncState_catch k w =
     (let a = act_state (attempts w ! k);
          state = (heap w a)\<lparr>retryAttempts := retryAttempts (heap w a) + 1\<rparr>;
          delay = nextRetryDelay state
      in finish k (w\<lparr>heap := (heap w)(a := state),
                     notices := notices w @ [Notice (retryAttempts state) ((delay + 500) div 1000)],
                     timers := timers w @ [Timer a delay True]\<rparr>))"

text \<open>
  Lines 143--148, resumed with the value \<open>getTask\<close> resolved to: \<open>None\<close> is no task
  (a value that \<open>!todoistTask\<close> holds of), \<open>Some c\<close> a task whose \<open>completedAt\<close> is
  set iff \<open>c\<close>. A \<open>getTask\<close> that rejects is the event \<open>CallThrows\<close> below.
\<close>

definition syncState_gotTask :: "nat \<Rightarrow> bool option \<Rightarrow> world \<Rightarrow> world" where
  "syncState_gotTask k r w =
     (case attempts w ! k of Activation a p c \<Rightarrow>
        (case r of
           None \<Rightarrow> finish k w
         | Some completed \<Rightarrow>
             if checkboxState (heap w a) \<and> \<not> completed then
               w\<lparr>calls := calls w @ [CloseTask (todoistId (heap w a))],
                 attempts := (attempts w)[k := Activation a AwaitCloseTask c]\<rparr>
             else if \<not> checkboxState (heap w a) \<and> completed then
               w\<lparr>calls := calls w @ [ReopenTask (todoistId (heap w a))],
                 attempts := (attempts w)[k := Activation a AwaitReopenTask c]\<rparr>
             else syncState_done k w))"

subsection \<open>\<open>syncState\<close> on an inherited member\<close>

text \<open>
  The same lines 140--159, run on an inherited member \<open>n\<close> that \<open>updateState\<close> took for
  a state. Line 142 calls \<open>getTask(state.todoistId)\<close>, and the member has no
  \<open>todoistId\<close>.
\<close>

definition syncState_builtin :: "string \<Rightarrow> world \<Rightarrow> world" where
  "syncState_builtin n w =
     w\<lparr>calls := calls w @ [GetTaskUndefined],
       builtinAttempts := builtinAttempts w @ [BuiltinActivation n BuiltinAwaitGetTask]\<rparr>"

definition builtin_done :: "nat \<Rightarrow> world \<Rightarrow> world" where
  "builtin_done k w =
     (let n = bact_name (builtinAttempts w ! k)
      in w\<lparr>builtins := (builtins w)(n := (builtins w n)
                \<lparr>own_synced := Some True, own_retryAttempts := Count 0\<rparr>),
           builtinAttempts := (builtinAttempts w)[k := BuiltinActivation n Returned]\<rparr>)"

text \<open>
  The \<open>catch\<close> block: after \<open>state.retryAttempts++\<close>, line 153 calls
  \<open>state.nextRetryDelay()\<close>, which the member does not have. That raises a
  \<open>TypeError\<close> inside the \<open>catch\<close> block: the activation rejects, with no notice and
  no timer.
\<close>

definition builtin_catch :: "nat \<Rightarrow> world \<Rightarrow> world" where
  "builtin_catch k w =
     (let n = bact_name (builtinAttempts w ! k)
      in w\<lparr>builtins := (builtins w)(n := (builtins w n)
                \<lparr>own_retryAttempts := increment (own_retryAttempts (builtins w n))\<rparr>),
           builtinAttempts := (builtinAttempts w)[k := BuiltinActivation n Rejected]\<rparr>)"

definition builtin_gotTask :: "nat \<Rightarrow> bool option \<Rightarrow> world \<Rightarrow> world" where
  "builtin_gotTask k r w =
     (case builtinAttempts w ! k of BuiltinActivation n p \<Rightarrow>
        (case r of
           None \<Rightarrow> w\<lparr>builtinAttempts := (builtinAttempts w)[k := BuiltinActivation n Returned]\<rparr>
         | Some completed \<Rightarrow>
             if own_checkboxState (builtins w n) = Some True \<and> \<not> completed then
               w\<lparr>calls := calls w @ [CloseTaskUndefined],
                 builtinAttempts := (builtinAttempts w)[k := BuiltinActivation n BuiltinAwaitCloseTask]\<rparr>
             else if own_checkboxState (builtins w n) \<noteq> Some True \<and> completed then
               w\<lparr>calls := calls w @ [ReopenTaskUndefined],
                 builtinAttempts := (builtinAttempts w)[k := BuiltinActivation n BuiltinAwaitReopenTask]\<rparr>
             else builtin_done k w))"

subsection \<open>\<open>updateState\<close>, the timer callback, \<open>restorePendingSyncs\<close>\<close>

text \<open>
  Lines 121--137. The test \<open>if (!state)\<close> of line 123 takes the first branch only when
  the lookup gave \<open>undefined\<close>: an inherited member is an object, and the rest of the
  function treats it as the state.
\<close>

definition updateState :: "string \<Rightarrow> bool \<Rightarrow> world \<Rightarrow> world" where
  "updateState tid cb w =
     (case store_read (taskStates w) tid of
        Undefined \<Rightarrow>
          (let a = nextAddr w
           in w\<lparr>heap := (heap w)(a := (newState tid cb)\<lparr>synced := True\<rparr>), nextAddr := Suc a,
                taskStates := store_put (taskStates w) tid a\<rparr>)
      | Own a \<Rightarrow>
          (let w1 = (if checkboxState (heap w a) \<noteq> cb
                     then w\<lparr>heap := (heap w)(a := (heap w a)
                              \<lparr>checkboxState := cb, synced := False, retryAttempts := 0\<rparr>)\<rparr>
                     else w)
           in if synced (heap w1 a) then w1 else syncState a Detached w1)
      | Inherited n \<Rightarrow>
          (let w1 = (if own_checkboxState (builtins w n) \<noteq> Some cb
                     then w\<lparr>builtins := (builtins w)(n :=
                              \<lparr>own_checkboxState = Some cb, own_synced = Some False,
                               own_retryAttempts = Count 0\<rparr>)\<rparr>
                     else w)
           in if own_synced (builtins w1 n) = Some True then w1 else syncState_builtin n w1))"

text \<open>Lines 155--157: \<open>if (!state.synced) this.syncState(state)\<close>.\<close>

definition timerCallback :: "nat \<Rightarrow> world \<Rightarrow> world" where
  "timerCallback j w =
     (case timers w ! j of Timer a d p \<Rightarrow>
        (let w1 = w\<lparr>timers := (timers w)[j := Timer a d False]\<rparr>
         in if \<not> synced (heap w1 a) then syncState a Detached w1 else w1))"

text \<open>
  Lines 93--96: \<open>Object.values(this.taskStates)\<close>, and the entries
  \<open>savePendingSyncs\<close> hands to \<open>saveData\<close> as \<open>pendingSyncs\<close>.
\<close>

definition stateValues :: "world \<Rightarrow> State list" where
  "stateValues w = map (heap w) (Object_values (taskStates w))"

definition savePendingSyncs :: "world \<Rightarrow> PersistedSyncEntry list" where
  "savePendingSyncs w =
     map (\<lambda>s. PersistedSyncEntry (todoistId s) (checkboxState s) (retryAttempts s))
       (filter (\<lambda>s. \<not> synced s) (stateValues w))"

text \<open>
  Lines 102--111: \<open>restorePendingSyncs\<close>, given the \<open>pendingSyncs\<close> that \<open>loadData\<close>
  returned (none when the data or the field is missing).
\<close>

definition restorePendingSyncs :: "PersistedSyncEntry list \<Rightarrow> world \<Rightarrow> world" where
  "restorePendingSyncs entries w = restoreLoop entries w"

subsection \<open>Events\<close>

text \<open>
  What can happen next: the change handler calls \<open>updateState\<close>; the remote call an
  activation awaits resolves or rejects; a timer fires; \<open>restorePendingSyncs\<close> is
  called. An event that names an activation or a timer that is not waiting for it is not
  enabled (\<open>None\<close>), and neither is a call that would read the inherited \<open>__proto__\<close>
  or assign to it.
\<close>

datatype event =
    UpdateState string bool
  | GetTaskReturns nat "bool option"
  | MutationReturns nat
  | CallThrows nat
  | TimerFires nat
  | RestorePendingSyncs "PersistedSyncEntry list"
  | BuiltinGetTaskReturns nat "bool option"
  | BuiltinMutationReturns nat
  | BuiltinCallThrows nat

fun step :: "event \<Rightarrow> world \<Rightarrow> world option" where
  "step (UpdateState tid cb) w =
     (if readsPrototype (taskStates w) tid then None else Some (updateState tid cb w))"
| "step (GetTaskReturns k r) w =
     (if k < length (attempts w) \<and> act_at (attempts w ! k) = AwaitGetTask
      then Some (syncState_gotTask k r w) else None)"
| "step (MutationReturns k) w =
     (if k < length (attempts w) \<and>
         (act_at (attempts w ! k) = AwaitCloseTask \<or> act_at (attempts w ! k) = AwaitReopenTask)
      then Some (syncState_done k w) else None)"
| "step (CallThrows k) w =
     (if k < length (attempts w) \<and> act_at (attempts w ! k) \<noteq> Finished
      then Some (syncState_catch k w) else None)"
| "step (TimerFires j) w =
     (if j < length (timers w) \<and> timer_pending (timers w ! j)
      then Some (timerCallback j w) else None)"
| "step (RestorePendingSyncs entries) w =
     (if ''__proto__'' \<in> set (map entry_todoistId entries) then None
      else Some (restorePendingSyncs entries w))"
| "step (BuiltinGetTaskReturns k r) w =
     (if k < length (builtinAttempts w) \<and> bact_at (builtinAttempts w ! k) = BuiltinAwaitGetTask
      then Some (builtin_gotTask k r w) else None)"
| "step (BuiltinMutationReturns k) w =
     (if k < length (builtinAttempts w) \<and>
         (bact_at (builtinAttempts w ! k) = BuiltinAwaitCloseTask \<or>
          bact_at (builtinAttempts w ! k) = BuiltinAwaitReopenTask)
      then Some (builtin_done k w) else None)"
| "step (BuiltinCallThrows k) w =
     (if k < length (builtinAttempts w) \<and>
         bact_at (builtinAttempts w ! k) \<notin> {Returned, Rejected}
      then Some (builtin_catch k w) else None)"

fun run :: "event list \<Rightarrow> world \<Rightarrow> world option" where
  "run [] w = Some w"
| "run (e # es) w = (case step e w of None \<Rightarrow> None | Some w' \<Rightarrow> run es w')"

text \<open>The worlds a run passes through, one per event, up to the first event that is not enabled.\<close>

fun trace :: "event list \<Rightarrow> world \<Rightarrow> world list" where
  "trace [] w = []"
| "trace (e # es) w = (case step e w of None \<Rightarrow> [] | Some w' \<Rightarrow> w' # trace es w')"

subsection \<open>The answers the loop of \<open>restorePendingSyncs\<close> waits for\<close>




subsection \<open>What is observed of a world\<close>

text \<open>
  The remote calls that change a task, the delays of all timers set so far, and the retry
  count of the state at an address.
\<close>

definition isMutation :: "remote_call \<Rightarrow> bool" where
  "isMutation c =
     (case c of GetTask _ \<Rightarrow> False | GetProject _ \<Rightarrow> False | GetTaskUndefined \<Rightarrow> False
      | _ \<Rightarrow> True)"

definition scheduledDelays :: "world \<Rightarrow> nat list" where
  "scheduledDelays w = map timer_delay (timers w)"

definition retryAttemptsOf :: "addr \<Rightarrow> world \<Rightarrow> nat" where
  "retryAttemptsOf a w = retryAttempts (heap w a)"

subsection \<open>Runs without overlapping attempts\<close>

text \<open>
  Nothing in the code keeps two activations of \<open>syncState\<close> from working on the same
  state at once. A world is \<open>exclusive\<close> when no two unfinished activations share their
  state, and a serial run is a run all of whose worlds are exclusive.
\<close>

definition unfinished :: "activation \<Rightarrow> bool" where
  "unfinished x \<longleftrightarrow> act_at x \<noteq> Finished"

definition exclusive :: "world \<Rightarrow> bool" where
  "exclusive w \<longleftrightarrow> distinct (map act_state (filter unfinished (attempts w)))"

fun serialRun :: "event list \<Rightarrow> world \<Rightarrow> world option" where
  "serialRun [] w = Some w"
| "serialRun (e # es) w =
     (case step e w of
        None \<Rightarrow> None
      | Some w' \<Rightarrow> if exclusive w' then serialRun es w' else None)"

subsection \<open>Basic facts\<close>

lemmas world_eval = emptyWorld_def updateState_def store_get_def store_read_def
  readsPrototype_def inheritedNames_def newState_def syncState_def
  restorePendingSyncs_def syncState_gotTask_def syncState_done_def syncState_catch_def
  timerCallback_def finish_def nextRetryDelay_def Let_def

lemma store_read_Own [simp]: "store_get kvs k = Some a \<Longrightarrow> store_read kvs k = Own a"
  by (simp add: store_read_def)

lemma readsPrototype_Own [simp]: "store_get kvs k = Some a \<Longrightarrow> \<not> readsPrototype kvs k"
  by (simp add: readsPrototype_def)

lemma store_read_Undefined:
  "store_read kvs k = Undefined \<longleftrightarrow> store_get kvs k = None \<and> k \<notin> set inheritedNames"
  by (simp add: store_read_def split: option.splits)

lemma store_read_Own_iff: "store_read kvs k = Own a \<longleftrightarrow> store_get kvs k = Some a"
  by (simp add: store_read_def split: option.splits)

lemma store_read_Inherited:
  "store_read kvs k = Inherited n \<longleftrightarrow> store_get kvs k = None \<and> k \<in> set inheritedNames \<and> n = k"
  by (auto simp: store_read_def split: option.splits)

lemma updateState_Inherited:
  assumes "store_read (taskStates w) tid = Inherited n"
  shows "taskStates (updateState tid cb w) = taskStates w"
    and "heap (updateState tid cb w) = heap w"
    and "nextAddr (updateState tid cb w) = nextAddr w"
    and "attempts (updateState tid cb w) = attempts w"
    and "timers (updateState tid cb w) = timers w"
    and "notices (updateState tid cb w) = notices w"
  using assms by (simp_all add: updateState_def syncState_builtin_def Let_def)

lemma builtin_steps_store:
  "taskStates (builtin_gotTask k r w) = taskStates w"
  "heap (builtin_gotTask k r w) = heap w"
  "nextAddr (builtin_gotTask k r w) = nextAddr w"
  "attempts (builtin_gotTask k r w) = attempts w"
  "timers (builtin_gotTask k r w) = timers w"
  "taskStates (builtin_done k w) = taskStates w"
  "heap (builtin_done k w) = heap w"
  "nextAddr (builtin_done k w) = nextAddr w"
  "attempts (builtin_done k w) = attempts w"
  "timers (builtin_done k w) = timers w"
  "taskStates (builtin_catch k w) = taskStates w"
  "heap (builtin_catch k w) = heap w"
  "nextAddr (builtin_catch k w) = nextAddr w"
  "attempts (builtin_catch k w) = attempts w"
  "timers (builtin_catch k w) = timers w"
  by (simp_all add: builtin_gotTask_def builtin_done_def builtin_catch_def Let_def
        split: builtin_activation.splits option.splits)

lemma set_Object_values: "set (Object_values kvs) = snd ` set kvs"
  by (auto simp: Object_values_def)

lemma set_stateValues: "set (stateValues w) = (\<lambda>kv. heap w (snd kv)) ` set (taskStates w)"
  by (auto simp: stateValues_def set_Object_values)

lemma store_put_absent: "map_of kvs k = None \<Longrightarrow> store_put kvs k a = kvs @ [(k, a)]"
  by (induction kvs) (auto split: if_splits)


lemma set_store_put: "set (store_put kvs k a) \<subseteq> insert (k, a) (set kvs)"
  by (induction kvs) (auto split: if_splits)

lemma store_get_mem: "store_get kvs k = Some a \<Longrightarrow> (k, a) \<in> set kvs"
  by (simp add: store_get_def map_of_SomeD)

lemma restoreLoop_mutations:
  "filter isMutation (calls (restoreLoop es w)) = filter isMutation (calls w)"
  by (cases es) (simp_all add: syncState_def isMutation_def Let_def)

lemma restoreLoop_timers: "timers (restoreLoop es w) = timers w"
  by (cases es) (simp_all add: syncState_def Let_def)

lemma restoreLoop_notices: "notices (restoreLoop es w) = notices w"
  by (cases es) (simp_all add: syncState_def Let_def)

lemma restoreLoop_heap: "a < nextAddr w \<Longrightarrow> heap (restoreLoop es w) a = heap w a"
  by (cases es) (simp_all add: syncState_def Let_def)

lemma resume_mutations: "filter isMutation (calls (resume c w)) = filter isMutation (calls w)"
  by (cases c) (simp_all add: restoreLoop_mutations)

lemma resume_timers: "timers (resume c w) = timers w"
  by (cases c) (simp_all add: restoreLoop_timers)

lemma resume_notices: "notices (resume c w) = notices w"
  by (cases c) (simp_all add: restoreLoop_notices)

lemma resume_heap: "a < nextAddr w \<Longrightarrow> heap (resume c w) a = heap w a"
  by (cases c) (simp_all add: restoreLoop_heap)

subsection \<open>The store stays well formed\<close>

text \<open>
  In every world a run reaches from the empty store, the addresses in use have been
  allocated, and every entry of the store holds a state whose \<open>todoistId\<close> is the key it
  is stored under.
\<close>

definition allocated :: "world \<Rightarrow> bool" where
  "allocated w \<longleftrightarrow>
     (\<forall>(tid, a) \<in> set (taskStates w). a < nextAddr w) \<and>
     (\<forall>j < length (attempts w). act_state (attempts w ! j) < nextAddr w) \<and>
     (\<forall>j < length (timers w). timer_state (timers w ! j) < nextAddr w)"

definition keysMatch :: "world \<Rightarrow> bool" where
  "keysMatch w \<longleftrightarrow> (\<forall>(tid, a) \<in> set (taskStates w). todoistId (heap w a) = tid)"

definition wellFormed :: "world \<Rightarrow> bool" where
  "wellFormed w \<longleftrightarrow> allocated w \<and> keysMatch w"

lemmas wellFormed_defs = wellFormed_def allocated_def keysMatch_def

lemma wellFormed_empty: "wellFormed emptyWorld"
  by (simp add: wellFormed_defs emptyWorld_def)

lemma wellFormed_syncState:
  assumes "wellFormed w" and "a < nextAddr w"
  shows "wellFormed (syncState a c w)"
  using assms by (auto simp: wellFormed_defs syncState_def nth_append less_Suc_eq)

lemma wellFormed_restoreLoop:
  assumes "wellFormed w"
  shows "wellFormed (restoreLoop es w)"
proof (cases es)
  case Nil
  with assms show ?thesis by simp
next
  case (Cons e es')
  let ?a = "nextAddr w"
  let ?st = "(newState (entry_todoistId e) (entry_checkboxState e))
                    \<lparr>synced := False, retryAttempts := entry_retryAttempts e\<rparr>"
  let ?w1 = "w\<lparr>heap := (heap w)(?a := ?st), nextAddr := Suc ?a,
                 taskStates := store_put (taskStates w) (entry_todoistId e) ?a\<rparr>"
  have sub: "set (taskStates ?w1) \<subseteq> insert (entry_todoistId e, ?a) (set (taskStates w))"
    by (simp add: set_store_put)
  have "wellFormed ?w1"
    using assms sub by (fastforce simp: wellFormed_defs newState_def)
  then have "wellFormed (syncState ?a (RestoreLoop es') ?w1)"
    by (rule wellFormed_syncState) simp
  with Cons show ?thesis by (simp add: Let_def)
qed

lemma wellFormed_finish:
  assumes "wellFormed w" and "k < length (attempts w)"
  shows "wellFormed (finish k w)"
proof (cases "attempts w ! k")
  case (Activation a p c)
  have "wellFormed (w\<lparr>attempts := (attempts w)[k := Activation a Finished c]\<rparr>)"
    using assms Activation by (auto simp: wellFormed_defs nth_list_update)
  then have "wellFormed (resume c (w\<lparr>attempts := (attempts w)[k := Activation a Finished c]\<rparr>))"
    by (cases c) (simp_all add: wellFormed_restoreLoop)
  with Activation show ?thesis by (simp add: finish_def)
qed

lemma wellFormed_heap_fields:
  assumes "wellFormed w" and "todoistId st = todoistId (heap w a)"
  shows "wellFormed (w\<lparr>heap := (heap w)(a := st)\<rparr>)"
  using assms by (auto simp: wellFormed_defs)

lemma wellFormed_done:
  assumes "wellFormed w" and "k < length (attempts w)"
  shows "wellFormed (syncState_done k w)"
  unfolding syncState_done_def Let_def
  by (rule wellFormed_finish) (use assms in \<open>auto intro: wellFormed_heap_fields\<close>)

lemma wellFormed_catch:
  assumes "wellFormed w" and "k < length (attempts w)"
  shows "wellFormed (syncState_catch k w)"
proof -
  let ?a = "act_state (attempts w ! k)"
  let ?st = "(heap w ?a)\<lparr>retryAttempts := retryAttempts (heap w ?a) + 1\<rparr>"
  have a: "?a < nextAddr w" using assms by (simp add: wellFormed_defs)
  have "wellFormed (w\<lparr>heap := (heap w)(?a := ?st), notices := ns,
                       timers := timers w @ [Timer ?a d True]\<rparr>)" for ns d
    using assms(1) a by (auto simp: wellFormed_defs nth_append less_Suc_eq)
  then show ?thesis
    unfolding syncState_catch_def Let_def
    by (intro wellFormed_finish) (use assms(2) in simp_all)
qed

lemma wellFormed_gotTask:
  assumes "wellFormed w" and "k < length (attempts w)"
  shows "wellFormed (syncState_gotTask k r w)"
proof (cases "attempts w ! k")
  case (Activation a p c)
  have upd: "wellFormed (w\<lparr>calls := cs, attempts := (attempts w)[k := Activation a q c]\<rparr>)" for cs q
    using assms Activation by (auto simp: wellFormed_defs nth_list_update)
  show ?thesis
    using Activation wellFormed_finish[OF assms] wellFormed_done[OF assms] upd
    by (simp add: syncState_gotTask_def split: option.splits)
qed

lemma wellFormed_updateState:
  assumes "wellFormed w"
  shows "wellFormed (updateState tid cb w)"
proof (cases "store_read (taskStates w) tid")
  case Undefined
  let ?a = "nextAddr w"
  let ?v = "w\<lparr>heap := (heap w)(?a := (newState tid cb)\<lparr>synced := True\<rparr>), nextAddr := Suc ?a,
                taskStates := store_put (taskStates w) tid ?a\<rparr>"
  have sub: "set (taskStates ?v) \<subseteq> insert (tid, ?a) (set (taskStates w))"
    by (simp add: set_store_put)
  have "wellFormed ?v"
    using assms sub by (fastforce simp: wellFormed_defs newState_def)
  with Undefined show ?thesis by (simp add: updateState_def Let_def)
next
  case (Inherited n)
  with assms show ?thesis
    by (simp add: wellFormed_defs updateState_Inherited)
next
  case (Own a)
  then have a: "a < nextAddr w"
    using assms by (auto simp: wellFormed_defs store_read_Own_iff dest!: store_get_mem)
  let ?w1 = "(if checkboxState (heap w a) \<noteq> cb
                     then w\<lparr>heap := (heap w)(a := (heap w a)
                              \<lparr>checkboxState := cb, synced := False, retryAttempts := 0\<rparr>)\<rparr>
                     else w)"
  have w1: "wellFormed ?w1"
    using assms by (auto intro: wellFormed_heap_fields)
  have "wellFormed (syncState a Detached ?w1)"
    using w1 by (rule wellFormed_syncState) (use a in auto)
  with w1 Own show ?thesis
    by (simp add: updateState_def Let_def)
qed

lemma wellFormed_timerCallback:
  assumes "wellFormed w" and "j < length (timers w)"
  shows "wellFormed (timerCallback j w)"
proof (cases "timers w ! j")
  case (Timer a d p)
  let ?w1 = "w\<lparr>timers := (timers w)[j := Timer a d False]\<rparr>"
  have a: "a < nextAddr w"
    using assms Timer by (auto simp: wellFormed_defs)
  have w1: "wellFormed ?w1"
    using assms Timer by (auto simp: wellFormed_defs nth_list_update)
  have "wellFormed (syncState a Detached ?w1)"
    using w1 by (rule wellFormed_syncState) (use a in auto)
  with w1 Timer show ?thesis
    by (simp add: timerCallback_def Let_def)
qed

lemma wellFormed_step:
  assumes "wellFormed w" and "step e w = Some w'"
  shows "wellFormed w'"
proof (cases e)
  case (UpdateState tid cb)
  with assms show ?thesis by (auto simp: wellFormed_updateState split: if_splits)
next
  case (GetTaskReturns k r)
  with assms show ?thesis by (auto simp: wellFormed_gotTask split: if_splits)
next
  case (MutationReturns k)
  with assms show ?thesis by (auto simp: wellFormed_done split: if_splits)
next
  case (CallThrows k)
  with assms show ?thesis by (auto simp: wellFormed_catch split: if_splits)
next
  case (TimerFires j)
  with assms show ?thesis by (auto simp: wellFormed_timerCallback split: if_splits)
next
  case (RestorePendingSyncs es)
  with assms show ?thesis
    by (auto simp: restorePendingSyncs_def wellFormed_restoreLoop split: if_splits)
next
  case (BuiltinGetTaskReturns k r)
  with assms show ?thesis
    by (auto simp: wellFormed_defs builtin_steps_store split: if_splits)
next
  case (BuiltinMutationReturns k)
  with assms show ?thesis
    by (auto simp: wellFormed_defs builtin_steps_store split: if_splits)
next
  case (BuiltinCallThrows k)
  with assms show ?thesis
    by (auto simp: wellFormed_defs builtin_steps_store split: if_splits)
qed

lemma wellFormed_run:
  "wellFormed w \<Longrightarrow> run es w = Some w' \<Longrightarrow> wellFormed w'"
proof (induction es arbitrary: w)
  case Nil
  then show ?case by simp
next
  case (Cons e es)
  from Cons.prems(2) obtain v where v: "step e w = Some v" "run es v = Some w'"
    by (auto split: option.splits)
  from Cons.IH[OF wellFormed_step[OF Cons.prems(1) v(1)] v(2)] show ?case .
qed

lemma reachable_keysMatch:
  assumes "run es emptyWorld = Some w" and "(tid, a) \<in> set (taskStates w)"
  shows "todoistId (heap w a) = tid"
  using wellFormed_run[OF wellFormed_empty assms(1)] assms(2)
  by (auto simp: wellFormed_defs)

subsection \<open>The store never has \<open>__proto__\<close> for a key\<close>











subsection \<open>Observing a checkbox\<close>

text \<open>
  The first sighting of a task (lines 123--129): for a task id that the lookup of line
  122 finds nothing for, an id that is neither an own property of the store nor the name
  of an inherited member, \<open>updateState\<close> adds an entry whose state has the observed
  \<open>checkboxState\<close>, \<open>synced = true\<close> and \<open>retryAttempts = 0\<close>. No remote call is
  issued, no activation of \<open>syncState\<close> starts, and no timer is set.
\<close>

lemma updateState_undefined:
  assumes "store_get (taskStates w) tid = None" and "tid \<notin> set inheritedNames"
  shows "\<exists>w'. step (UpdateState tid cb) w = Some w' \<and>
           w' = w\<lparr>heap := (heap w)(nextAddr w :=
                       \<lparr>todoistId = tid, checkboxState = cb, synced = True, retryAttempts = 0\<rparr>),
                    nextAddr := Suc (nextAddr w),
                    taskStates := taskStates w @ [(tid, nextAddr w)]\<rparr> \<and>
           store_get (taskStates w') tid = Some (nextAddr w) \<and>
           heap w' (nextAddr w) =
             \<lparr>todoistId = tid, checkboxState = cb, synced = True, retryAttempts = 0\<rparr> \<and>
           calls w' = calls w \<and> attempts w' = attempts w \<and> timers w' = timers w"
proof -
  from assms have rd: "store_read (taskStates w) tid = Undefined"
    by (simp add: store_read_Undefined)
  then have "\<not> readsPrototype (taskStates w) tid"
    by (simp add: readsPrototype_def)
  with rd assms(1) show ?thesis
    by (simp add: updateState_def store_get_def store_put_absent newState_def Let_def map_add_def)
qed

text \<open>
  An id that has no entry in the store but is the name of an inherited member (other than
  \<open>__proto__\<close>) gets no entry. The member is taken for its state: the observed
  \<open>checkboxState\<close> is stored on the member when it differs from what the member has (at
  first nothing), with \<open>synced = false\<close> and \<open>retryAttempts = 0\<close>, and unless the
  member is marked synced, \<open>syncState\<close> is called on it and calls \<open>getTask\<close> with
  \<open>undefined\<close> for the id.
\<close>

lemma updateState_inherited:
  assumes "store_get (taskStates w) tid = None" and "tid \<in> set inheritedNames"
    and "tid \<noteq> ''__proto__''" and "own_checkboxState (builtins w tid) \<noteq> Some cb"
  shows "step (UpdateState tid cb) w =
           Some (w\<lparr>builtins := (builtins w)(tid :=
                       \<lparr>own_checkboxState = Some cb, own_synced = Some False,
                        own_retryAttempts = Count 0\<rparr>),
                    calls := calls w @ [GetTaskUndefined],
                    builtinAttempts := builtinAttempts w @ [BuiltinActivation tid BuiltinAwaitGetTask]\<rparr>)"
proof -
  from assms(1,2) have rd: "store_read (taskStates w) tid = Inherited tid"
    by (simp add: store_read_Inherited)
  with assms(3) have "\<not> readsPrototype (taskStates w) tid"
    by (simp add: readsPrototype_def)
  with rd assms(4) show ?thesis
    by (simp add: updateState_def syncState_builtin_def Let_def)
qed

text \<open>
  C7: for a task id that has an entry, \<open>updateState\<close> with a \<open>checkboxState\<close> other than
  the stored one stores the new value, sets \<open>synced = false\<close> and \<open>retryAttempts = 0\<close>, and
  then starts a sync attempt on that entry: \<open>syncState\<close> is called on it, issues
  \<open>getTask\<close> for its id and waits for the answer.
\<close>

theorem updateState_changed_checkbox:
  assumes "store_get (taskStates w) tid = Some a" and "checkboxState (heap w a) \<noteq> cb"
  shows "\<exists>w'. step (UpdateState tid cb) w = Some w' \<and>
           w' = w\<lparr>heap := (heap w)(a := (heap w a)
                       \<lparr>checkboxState := cb, synced := False, retryAttempts := 0\<rparr>),
                    calls := calls w @ [GetTask (todoistId (heap w a))],
                    attempts := attempts w @ [Activation a AwaitGetTask Detached]\<rparr> \<and>
           heap w' a = (heap w a)\<lparr>checkboxState := cb, synced := False, retryAttempts := 0\<rparr> \<and>
           taskStates w' = taskStates w \<and>
           attempts w' = attempts w @ [Activation a AwaitGetTask Detached]"
  using assms
  by (simp add: updateState_def syncState_def Let_def)

theorem updateState_changed_checkbox_witness:
  "store_get (taskStates (updateState ''123'' False emptyWorld)) ''123'' = Some 0 \<and>
   checkboxState (heap (updateState ''123'' False emptyWorld) 0) \<noteq> True \<and>
   (\<exists>w'. step (UpdateState ''123'' True) (updateState ''123'' False emptyWorld) = Some w' \<and>
      heap w' 0 = \<lparr>todoistId = ''123'', checkboxState = True, synced = False, retryAttempts = 0\<rparr> \<and>
      calls w' = [GetTask ''123''] \<and> attempts w' = [Activation 0 AwaitGetTask Detached])"
proof -
  have h1: "store_get (taskStates (updateState ''123'' False emptyWorld)) ''123'' = Some 0"
    by (simp add: world_eval)
  have h2: "checkboxState (heap (updateState ''123'' False emptyWorld) 0) \<noteq> True"
    by (simp add: world_eval)
  from updateState_changed_checkbox[OF h1 h2] h1 h2 show ?thesis
    by (auto simp: world_eval)
qed

subsection \<open>One sync attempt\<close>

text \<open>
  C4: when \<open>getTask\<close> returns a task whose completion status is the state's
  \<open>checkboxState\<close> at that moment, the activation issues no further remote call, so
  neither \<open>closeTask\<close> nor \<open>reopenTask\<close>: it sets \<open>synced = true\<close> and
  \<open>retryAttempts = 0\<close> on the state and returns. This holds whatever happened between the
  call of \<open>syncState\<close> and the answer, and for every caller; when the caller is the loop
  of \<open>restorePendingSyncs\<close>, the loop goes on and only ever fetches.
\<close>

theorem syncState_already_consistent:
  assumes "k < length (attempts w)" and "attempts w ! k = Activation a AwaitGetTask c"
    and "a < nextAddr w" and "completed = checkboxState (heap w a)"
  shows "\<exists>w'. step (GetTaskReturns k (Some completed)) w = Some w' \<and>
           w' = resume c (w\<lparr>heap := (heap w)(a := (heap w a)\<lparr>synced := True, retryAttempts := 0\<rparr>),
                             attempts := (attempts w)[k := Activation a Finished c]\<rparr>) \<and>
           filter isMutation (calls w') = filter isMutation (calls w) \<and>
           timers w' = timers w \<and>
           heap w' a = (heap w a)\<lparr>synced := True, retryAttempts := 0\<rparr> \<and>
           (c = Detached \<longrightarrow> calls w' = calls w)"
proof -
  let ?v = "w\<lparr>heap := (heap w)(a := (heap w a)\<lparr>synced := True, retryAttempts := 0\<rparr>),
              attempts := (attempts w)[k := Activation a Finished c]\<rparr>"
  have st: "step (GetTaskReturns k (Some completed)) w = Some (resume c ?v)"
    using assms by (simp add: syncState_gotTask_def syncState_done_def finish_def)
  have "heap (resume c ?v) a = heap ?v a"
    using assms(3) by (intro resume_heap) simp
  then have hp: "heap (resume c ?v) a = (heap w a)\<lparr>synced := True, retryAttempts := 0\<rparr>"
    by simp
  show ?thesis
    using st hp by (auto simp: resume_mutations resume_timers)
qed

theorem syncState_already_consistent_witness:
  "attempts (updateState ''123'' True (updateState ''123'' False emptyWorld)) ! 0
     = Activation 0 AwaitGetTask Detached \<and>
   checkboxState (heap (updateState ''123'' True (updateState ''123'' False emptyWorld)) 0) = True \<and>
   (\<exists>w'. step (GetTaskReturns 0 (Some True))
            (updateState ''123'' True (updateState ''123'' False emptyWorld)) = Some w' \<and>
      calls w' = [GetTask ''123''] \<and> timers w' = [] \<and>
      heap w' 0 = \<lparr>todoistId = ''123'', checkboxState = True, synced = True, retryAttempts = 0\<rparr>)"
proof -
  let ?w = "updateState ''123'' True (updateState ''123'' False emptyWorld)"
  have h1: "0 < length (attempts ?w)" by (simp add: world_eval)
  have h2: "attempts ?w ! 0 = Activation 0 AwaitGetTask Detached" by (simp add: world_eval)
  have h3: "0 < nextAddr ?w" by (simp add: world_eval)
  have h4: "True = checkboxState (heap ?w 0)" by (simp add: world_eval)
  from syncState_already_consistent[OF h1 h2 h3 h4] h2 h4 show ?thesis
    by (auto simp: world_eval)
qed

text \<open>
  The branch of line 143, \<open>if (!todoistTask) return\<close>: when \<open>getTask\<close> resolves to
  nothing, the activation returns at once. It issues no remote call that changes a task,
  sets no timer, shows no notice and raises nothing. It leaves the state as it was, so a
  state that was not synced stays so, and when nothing else happens (the caller does
  nothing afterwards) it is still among the entries that \<open>savePendingSyncs\<close> writes.
\<close>

lemma syncState_no_task:
  assumes "k < length (attempts w)" and "attempts w ! k = Activation a AwaitGetTask c"
  shows "\<exists>w'. step (GetTaskReturns k None) w = Some w' \<and>
           w' = resume c (w\<lparr>attempts := (attempts w)[k := Activation a Finished c]\<rparr>) \<and>
           filter isMutation (calls w') = filter isMutation (calls w) \<and>
           timers w' = timers w \<and> notices w' = notices w \<and>
           (c = Detached \<longrightarrow> heap w' = heap w \<and> taskStates w' = taskStates w \<and>
              calls w' = calls w \<and> savePendingSyncs w' = savePendingSyncs w)"
proof -
  let ?w' = "resume c (w\<lparr>attempts := (attempts w)[k := Activation a Finished c]\<rparr>)"
  have st: "step (GetTaskReturns k None) w = Some ?w'"
    using assms by (simp add: syncState_gotTask_def finish_def)
  have det: "c = Detached \<Longrightarrow> savePendingSyncs ?w' = savePendingSyncs w"
    by (simp add: savePendingSyncs_def stateValues_def)
  show ?thesis
    using st det
    by (auto simp: resume_mutations resume_timers resume_notices)
qed

text \<open>
  C2: when the fetched task no longer exists, the attempt should stop there, with no
  retry, and the state should not be written as pending. The code does not do this. The
  Todoist client reports a task that no longer exists by rejecting \<open>getTask\<close> (the
  request fails with 404); it does not resolve to an empty value, so the branch of line
  143 is not the one that runs. The \<open>await\<close> of line 142 throws, and the \<open>catch\<close>
  block of lines 151--158 treats this like any other failure.

  A task with id 123 is tracked unchecked, then seen checked, and the fetch of the first
  attempt is rejected because the task was deleted in Todoist: the failure is counted, a
  notice announces the retry, a timer is set for 10 seconds, the state stays unsynced and
  is among the entries written as pending; when the timer fires, the task is fetched
  again.
\<close>

theorem syncState_deleted_task_is_retried:
  "map_option (\<lambda>w. (heap w 0, timers w, notices w, savePendingSyncs w))
     (run [UpdateState ''123'' False, UpdateState ''123'' True, CallThrows 0] emptyWorld)
   = Some (\<lparr>todoistId = ''123'', checkboxState = True, synced = False, retryAttempts = 1\<rparr>,
           [Timer 0 10000 True], [Notice 1 10], [PersistedSyncEntry ''123'' True 1]) \<and>
   map_option calls
     (run [UpdateState ''123'' False, UpdateState ''123'' True, CallThrows 0, TimerFires 0]
        emptyWorld)
   = Some [GetTask ''123'', GetTask ''123'']"
  by (simp add: world_eval savePendingSyncs_def stateValues_def Object_values_def
        isArrayIndex_def isDigit_def toNat_def)

text \<open>
  Had \<open>getTask\<close> resolved to nothing instead, the state would still be written as
  pending: the return of line 143 leaves \<open>synced\<close> false.
\<close>

lemma syncState_no_task_still_pending:
  "map_option savePendingSyncs
     (run [UpdateState ''123'' False, UpdateState ''123'' True, GetTaskReturns 0 None] emptyWorld)
   = Some [PersistedSyncEntry ''123'' True 0]"
  by (simp add: world_eval savePendingSyncs_def stateValues_def Object_values_def
        isArrayIndex_def isDigit_def toNat_def)

subsection \<open>Failing three times, then succeeding\<close>

text \<open>
  A failed attempt, in general: the \<open>catch\<close> block first counts the failure and then
  computes the delay from the new count. So the delay set after the \<open>n\<close>-th consecutive
  failure is \<open>min (5000 * 2 ^ n) 300000\<close>, and the first retry waits 10 seconds.
\<close>

lemma syncState_catch_delay:
  assumes "k < length (attempts w)" and "attempts w ! k = Activation a p Detached"
  shows "retryAttempts (heap (syncState_catch k w) a) = Suc (retryAttempts (heap w a)) \<and>
         timers (syncState_catch k w) =
           timers w @ [Timer a (min (5000 * 2 ^ Suc (retryAttempts (heap w a))) 300000) True]"
  using assms by (simp add: syncState_catch_def finish_def nextRetryDelay_def Let_def)

text \<open>
  C1, as the code has it. The scenario: a task \<open>tid\<close> is tracked as unchecked and synced,
  with whatever else the plugin has in flight. The task is then seen checked; the remote
  call of the first three attempts throws, each retry is started by its timer, and the
  fourth attempt fetches an open task and closes it. After each of the nine events the
  \<open>retryAttempts\<close> of the task's state is 0, 1, 1, 2, 2, 3, 3, 3, 0: it takes the values
  1, 2, 3 and then 0. The delays of the three timers are 10000, 20000 and 40000
  milliseconds, and the notices show attempts 1, 2, 3 with 10, 20 and 40 seconds.
\<close>

theorem retry_scenario:
  assumes "store_get (taskStates w) tid = Some a"
    and "heap w a = \<lparr>todoistId = tid, checkboxState = False, synced = True, retryAttempts = 0\<rparr>"
    and "n = length (attempts w)" and "m = length (timers w)"
    and "es = [UpdateState tid True,
               CallThrows n, TimerFires m,
               CallThrows (n + 1), TimerFires (m + 1),
               CallThrows (n + 2), TimerFires (m + 2),
               GetTaskReturns (n + 3) (Some False), MutationReturns (n + 3)]"
  shows "map (retryAttemptsOf a) (trace es w) = [0, 1, 1, 2, 2, 3, 3, 3, 0] \<and>
         map_option scheduledDelays (run es w) = Some (scheduledDelays w @ [10000, 20000, 40000]) \<and>
         map_option notices (run es w) = Some (notices w @ [Notice 1 10, Notice 2 20, Notice 3 40]) \<and>
         map_option calls (run es w)
           = Some (calls w @ [GetTask tid, GetTask tid, GetTask tid, GetTask tid, CloseTask tid]) \<and>
         map_option (\<lambda>w'. heap w' a) (run es w)
           = Some \<lparr>todoistId = tid, checkboxState = True, synced = True, retryAttempts = 0\<rparr>"
  unfolding assms(5) using assms(1,2)
  by (simp add: assms(3,4) updateState_def syncState_def syncState_gotTask_def syncState_done_def
        syncState_catch_def timerCallback_def finish_def nextRetryDelay_def Let_def
        retryAttemptsOf_def scheduledDelays_def nth_append list_update_append)

theorem retry_scenario_witness:
  "store_get (taskStates (updateState ''123'' False emptyWorld)) ''123'' = Some 0 \<and>
   heap (updateState ''123'' False emptyWorld) 0
     = \<lparr>todoistId = ''123'', checkboxState = False, synced = True, retryAttempts = 0\<rparr> \<and>
   map (retryAttemptsOf 0)
     (trace [UpdateState ''123'' True, CallThrows 0, TimerFires 0, CallThrows 1, TimerFires 1,
             CallThrows 2, TimerFires 2, GetTaskReturns 3 (Some False), MutationReturns 3]
        (updateState ''123'' False emptyWorld))
     = [0, 1, 1, 2, 2, 3, 3, 3, 0] \<and>
   map_option scheduledDelays
     (run [UpdateState ''123'' True, CallThrows 0, TimerFires 0, CallThrows 1, TimerFires 1,
           CallThrows 2, TimerFires 2, GetTaskReturns 3 (Some False), MutationReturns 3]
        (updateState ''123'' False emptyWorld))
     = Some [10000, 20000, 40000]"
proof -
  let ?w = "updateState ''123'' False emptyWorld"
  have h1: "store_get (taskStates ?w) ''123'' = Some 0" by (simp add: world_eval)
  have h2: "heap ?w 0 = \<lparr>todoistId = ''123'', checkboxState = False, synced = True, retryAttempts = 0\<rparr>"
    by (simp add: world_eval)
  have h3: "0 = length (attempts ?w)" by (simp add: world_eval)
  have h4: "0 = length (timers ?w)" by (simp add: world_eval)
  from retry_scenario[OF h1 h2 h3 h4 refl] h1 h2 show ?thesis
    by (simp add: world_eval retryAttemptsOf_def scheduledDelays_def)
qed

text \<open>
  The claim C1 as it was stated fails for task \<open>123\<close>, first seen unchecked and then
  checked: the delays set in the scenario are not 5000, 10000 and 20000 milliseconds.
\<close>

theorem retry_scenario_delays_not_5_10_20:
  "map_option scheduledDelays
     (run [UpdateState ''123'' False, UpdateState ''123'' True,
           CallThrows 0, TimerFires 0, CallThrows 1, TimerFires 1, CallThrows 2, TimerFires 2,
           GetTaskReturns 3 (Some False), MutationReturns 3] emptyWorld)
     = Some [10000, 20000, 40000] \<and>
   map_option scheduledDelays
     (run [UpdateState ''123'' False, UpdateState ''123'' True,
           CallThrows 0, TimerFires 0, CallThrows 1, TimerFires 1, CallThrows 2, TimerFires 2,
           GetTaskReturns 3 (Some False), MutationReturns 3] emptyWorld)
     \<noteq> Some [5000, 10000, 20000]"
  by (simp add: world_eval scheduledDelays_def)

subsection \<open>Saving and restoring the pending list\<close>










subsection \<open>Synced entries and the retry count\<close>

text \<open>
  The invariant of a serial run: every entry of the store that is synced has no retries
  counted, every address in use has been allocated, and the state of an unfinished
  activation is not synced.
\<close>

definition syncedHasNoRetries :: "world \<Rightarrow> bool" where
  "syncedHasNoRetries w \<longleftrightarrow>
     (\<forall>(tid, a) \<in> set (taskStates w). synced (heap w a) \<longrightarrow> retryAttempts (heap w a) = 0)"

definition attemptsUnsynced :: "world \<Rightarrow> bool" where
  "attemptsUnsynced w \<longleftrightarrow>
     (\<forall>j < length (attempts w).
        unfinished (attempts w ! j) \<longrightarrow> \<not> synced (heap w (act_state (attempts w ! j))))"

definition serialInv :: "world \<Rightarrow> bool" where
  "serialInv w \<longleftrightarrow> syncedHasNoRetries w \<and> allocated w \<and> attemptsUnsynced w"

lemmas serialInv_defs = serialInv_def syncedHasNoRetries_def allocated_def attemptsUnsynced_def

lemma serialInv_empty: "serialInv emptyWorld"
  by (simp add: serialInv_defs emptyWorld_def)

lemma serialInv_syncState:
  assumes "serialInv w" and "a < nextAddr w" and "\<not> synced (heap w a)"
  shows "serialInv (syncState a c w)"
  using assms
  by (auto simp: serialInv_defs syncState_def nth_append less_Suc_eq)

lemma serialInv_restoreLoop:
  assumes "serialInv w"
  shows "serialInv (restoreLoop es w)"
proof (cases es)
  case Nil
  with assms show ?thesis by simp
next
  case (Cons e es')
  let ?a = "nextAddr w"
  let ?st = "(newState (entry_todoistId e) (entry_checkboxState e))
                    \<lparr>synced := False, retryAttempts := entry_retryAttempts e\<rparr>"
  let ?w1 = "w\<lparr>heap := (heap w)(?a := ?st), nextAddr := Suc ?a,
                 taskStates := store_put (taskStates w) (entry_todoistId e) ?a\<rparr>"
  have sub: "set (taskStates ?w1) \<subseteq> insert (entry_todoistId e, ?a) (set (taskStates w))"
    by (simp add: set_store_put)
  have "serialInv ?w1"
    using assms sub
    by (fastforce simp: serialInv_defs)
  then have "serialInv (syncState ?a (RestoreLoop es') ?w1)"
    by (rule serialInv_syncState) simp_all
  with Cons show ?thesis by (simp add: Let_def)
qed

lemma serialInv_resume: "serialInv w \<Longrightarrow> serialInv (resume c w)"
  by (cases c) (simp_all add: serialInv_restoreLoop)

lemma serialInv_finish:
  assumes "serialInv w" and "k < length (attempts w)"
  shows "serialInv (finish k w)"
proof (cases "attempts w ! k")
  case (Activation a p c)
  have "serialInv (w\<lparr>attempts := (attempts w)[k := Activation a Finished c]\<rparr>)"
    using assms Activation
    by (auto simp: serialInv_defs nth_list_update unfinished_def)
  then have "serialInv (resume c (w\<lparr>attempts := (attempts w)[k := Activation a Finished c]\<rparr>))"
    by (rule serialInv_resume)
  with Activation show ?thesis by (simp add: finish_def)
qed

lemma exclusive_others:
  assumes "distinct (map f (filter P xs))" and "i < length xs" and "j < length xs"
    and "i \<noteq> j" and "P (xs ! i)" and "P (xs ! j)"
  shows "f (xs ! i) \<noteq> f (xs ! j)"
  using assms
proof (induction xs arbitrary: i j)
  case Nil
  then show ?case by simp
next
  case (Cons x xs)
  have mem: "f (xs ! n) \<in> f ` {y \<in> set xs. P y}" if "n < length xs" "P (xs ! n)" for n
    using that by auto
  show ?case
  proof (cases i)
    case 0
    with Cons.prems obtain j' where j: "j = Suc j'" by (cases j) auto
    from Cons.prems 0 j have "j' < length xs" "P (xs ! j')" "P x" by auto
    from mem[OF this(1,2)] Cons.prems(1) \<open>P x\<close> 0 j show ?thesis by auto
  next
    case (Suc i')
    show ?thesis
    proof (cases j)
      case 0
      from Cons.prems 0 Suc have "i' < length xs" "P (xs ! i')" "P x" by auto
      from mem[OF this(1,2)] Cons.prems(1) \<open>P x\<close> 0 Suc show ?thesis by auto
    next
      case (Suc j')
      with Cons.prems \<open>i = Suc i'\<close> have "f (xs ! i') \<noteq> f (xs ! j')"
        by (intro Cons.IH) (auto split: if_splits)
      with Suc \<open>i = Suc i'\<close> show ?thesis by simp
    qed
  qed
qed

lemma serialInv_done:
  assumes "serialInv w" and "exclusive w" and "k < length (attempts w)"
    and "unfinished (attempts w ! k)"
  shows "serialInv (syncState_done k w)"
proof -
  let ?a = "act_state (attempts w ! k)"
  let ?c = "act_caller (attempts w ! k)"
  let ?v = "w\<lparr>heap := (heap w)(?a := (heap w ?a)\<lparr>synced := True, retryAttempts := 0\<rparr>),
              attempts := (attempts w)[k := Activation ?a Finished ?c]\<rparr>"
  have other: "act_state (attempts w ! j) \<noteq> ?a"
    if "j < length (attempts w)" "j \<noteq> k" "unfinished (attempts w ! j)" for j
    using exclusive_others[of act_state unfinished "attempts w" j k] assms that
    by (simp add: exclusive_def)
  have "serialInv ?v"
    using assms(1,3) other
    by (auto simp: serialInv_defs nth_list_update unfinished_def)
  then have "serialInv (resume ?c ?v)"
    by (rule serialInv_resume)
  then show ?thesis
    by (cases "attempts w ! k") (simp add: syncState_done_def finish_def Let_def)
qed

lemma serialInv_catch:
  assumes "serialInv w" and "k < length (attempts w)" and "unfinished (attempts w ! k)"
  shows "serialInv (syncState_catch k w)"
proof -
  let ?a = "act_state (attempts w ! k)"
  let ?st = "(heap w ?a)\<lparr>retryAttempts := retryAttempts (heap w ?a) + 1\<rparr>"
  let ?v = "w\<lparr>heap := (heap w)(?a := ?st),
              notices := notices w @ [Notice (retryAttempts ?st) ((nextRetryDelay ?st + 500) div 1000)],
              timers := timers w @ [Timer ?a (nextRetryDelay ?st) True]\<rparr>"
  have "\<not> synced (heap w ?a)"
    using assms by (simp add: serialInv_defs)
  then have "serialInv ?v"
    using assms(1,2)
    by (auto simp: serialInv_defs nth_append less_Suc_eq)
  then have "serialInv (finish k ?v)"
    using assms(2) by (intro serialInv_finish) simp_all
  then show ?thesis
    by (simp add: syncState_catch_def Let_def)
qed


lemma serialInv_gotTask:
  assumes "serialInv w" and "exclusive w" and "k < length (attempts w)"
    and "act_at (attempts w ! k) = AwaitGetTask"
  shows "serialInv (syncState_gotTask k r w)"
proof (cases "attempts w ! k")
  case (Activation a p c)
  with assms(4) have p: "p = AwaitGetTask" by simp
  have unf: "unfinished (attempts w ! k)"
    using assms(4) by (simp add: unfinished_def)
  have step: "serialInv (w\<lparr>calls := cs, attempts := (attempts w)[k := Activation a q c]\<rparr>)" for cs q
    using assms(1,3) Activation unf
    by (auto simp: serialInv_defs nth_list_update)
  show ?thesis
    using Activation serialInv_finish[OF assms(1,3)] serialInv_done[OF assms(1,2,3) unf] step
    by (simp add: syncState_gotTask_def split: option.splits)
qed

lemma serialInv_updateState:
  assumes "serialInv w"
  shows "serialInv (updateState tid cb w)"
proof (cases "store_read (taskStates w) tid")
  case Undefined
  let ?a = "nextAddr w"
  let ?v = "w\<lparr>heap := (heap w)(?a := (newState tid cb)\<lparr>synced := True\<rparr>), nextAddr := Suc ?a,
                taskStates := store_put (taskStates w) tid ?a\<rparr>"
  have sub: "set (taskStates ?v) \<subseteq> insert (tid, ?a) (set (taskStates w))"
    by (simp add: set_store_put)
  have "serialInv ?v"
    using assms sub
    by (fastforce simp: serialInv_defs newState_def)
  with Undefined show ?thesis by (simp add: updateState_def Let_def)
next
  case (Inherited n)
  with assms show ?thesis
    by (simp add: serialInv_defs updateState_Inherited)
next
  case (Own a)
  then have a: "a < nextAddr w"
    using assms by (auto simp: serialInv_defs store_read_Own_iff dest!: store_get_mem)
  let ?w1 = "(if checkboxState (heap w a) \<noteq> cb
                     then w\<lparr>heap := (heap w)(a := (heap w a)
                              \<lparr>checkboxState := cb, synced := False, retryAttempts := 0\<rparr>)\<rparr>
                     else w)"
  have w1: "serialInv ?w1"
    using assms by (auto simp: serialInv_defs)
  have "serialInv (syncState a Detached ?w1)" if "\<not> synced (heap ?w1 a)"
    using w1 _ that by (rule serialInv_syncState) (use a in auto)
  with w1 Own show ?thesis
    by (simp add: updateState_def Let_def)
qed

lemma serialInv_timerCallback:
  assumes "serialInv w" and "j < length (timers w)"
  shows "serialInv (timerCallback j w)"
proof (cases "timers w ! j")
  case (Timer a d p)
  let ?w1 = "w\<lparr>timers := (timers w)[j := Timer a d False]\<rparr>"
  have a: "a < nextAddr w"
    using assms Timer by (auto simp: serialInv_defs)
  have w1: "serialInv ?w1"
    using assms Timer by (auto simp: serialInv_defs nth_list_update)
  have "serialInv (syncState a Detached ?w1)" if "\<not> synced (heap ?w1 a)"
    using w1 _ that by (rule serialInv_syncState) (use a in auto)
  with w1 Timer show ?thesis
    by (simp add: timerCallback_def Let_def)
qed

lemma serialInv_step:
  assumes "serialInv w" and "exclusive w" and "step e w = Some w'"
  shows "serialInv w'"
proof (cases e)
  case (UpdateState tid cb)
  with assms show ?thesis by (auto simp: serialInv_updateState split: if_splits)
next
  case (GetTaskReturns k r)
  with assms show ?thesis by (auto simp: serialInv_gotTask split: if_splits)
next
  case (MutationReturns k)
  with assms show ?thesis
    by (auto simp: unfinished_def intro!: serialInv_done split: if_splits)
next
  case (CallThrows k)
  with assms show ?thesis
    by (auto simp: unfinished_def intro!: serialInv_catch split: if_splits)
next
  case (TimerFires j)
  with assms show ?thesis by (auto simp: serialInv_timerCallback split: if_splits)
next
  case (RestorePendingSyncs es)
  with assms show ?thesis
    by (auto simp: restorePendingSyncs_def serialInv_restoreLoop split: if_splits)
next
  case (BuiltinGetTaskReturns k r)
  with assms show ?thesis
    by (auto simp: serialInv_defs builtin_steps_store split: if_splits)
next
  case (BuiltinMutationReturns k)
  with assms show ?thesis
    by (auto simp: serialInv_defs builtin_steps_store split: if_splits)
next
  case (BuiltinCallThrows k)
  with assms show ?thesis
    by (auto simp: serialInv_defs builtin_steps_store split: if_splits)
qed

lemma serialRun_inv:
  "serialInv w \<Longrightarrow> exclusive w \<Longrightarrow> serialRun es w = Some w' \<Longrightarrow> serialInv w'"
proof (induction es arbitrary: w)
  case Nil
  then show ?case by simp
next
  case (Cons e es)
  from Cons.prems(3) obtain v where v: "step e w = Some v" "exclusive v" "serialRun es v = Some w'"
    by (auto split: option.splits if_splits)
  from serialInv_step[OF Cons.prems(1,2) v(1)] have "serialInv v" .
  from Cons.IH[OF this v(2,3)] show ?case .
qed


text \<open>
  C8, as the code has it: in every world reached from the empty store by a serial run
  of \<open>updateState\<close>, \<open>restorePendingSyncs\<close>, timers and the outcomes of sync attempts,
  every entry of the store with \<open>synced = true\<close> has \<open>retryAttempts = 0\<close>.
\<close>

theorem synced_implies_no_retries_serial:
  assumes "serialRun es emptyWorld = Some w"
  shows "\<forall>s \<in> set (stateValues w). synced s \<longrightarrow> retryAttempts s = 0"
proof -
  have "exclusive emptyWorld" by (simp add: exclusive_def emptyWorld_def)
  from serialRun_inv[OF serialInv_empty this assms] show ?thesis
    by (auto simp: serialInv_def syncedHasNoRetries_def set_stateValues)
qed

theorem synced_implies_no_retries_serial_witness:
  "\<exists>w s. serialRun [UpdateState ''1'' False, UpdateState ''1'' True, CallThrows 0, TimerFires 0,
                      GetTaskReturns 1 (Some False), MutationReturns 1] emptyWorld = Some w \<and>
          stateValues w = [s] \<and> synced s \<and> retryAttempts s = 0"
proof -
  let ?es = "[UpdateState ''1'' False, UpdateState ''1'' True, CallThrows 0, TimerFires 0,
              GetTaskReturns 1 (Some False), MutationReturns 1]"
  have "map_option stateValues (serialRun ?es emptyWorld)
          = Some [\<lparr>todoistId = ''1'', checkboxState = True, synced = True, retryAttempts = 0\<rparr>]"
    by (simp add: world_eval exclusive_def unfinished_def stateValues_def Object_values_def
          isArrayIndex_def isDigit_def toNat_def)
  then obtain w where w: "serialRun ?es emptyWorld = Some w"
    and sv: "stateValues w = [\<lparr>todoistId = ''1'', checkboxState = True, synced = True, retryAttempts = 0\<rparr>]"
    by auto
  from synced_implies_no_retries_serial[OF w] sv
  have "retryAttempts \<lparr>todoistId = ''1'', checkboxState = True, synced = True, retryAttempts = 0\<rparr> = 0"
    by simp
  with w sv show ?thesis by simp
qed

text \<open>
  The claim C8 as it was stated fails on this run. Task \<open>1\<close> is seen unchecked, then
  checked, which starts attempt 0; the handler sees the same line again while attempt 0
  waits, which starts attempt 1. Attempt 1 fetches the task, closes it and marks the
  state synced; then the call attempt 0 waits for throws, and its \<open>catch\<close> block counts
  a failure on the synced state.
\<close>

theorem synced_with_retries_reachable:
  "map_option stateValues
     (run [UpdateState ''1'' False, UpdateState ''1'' True, UpdateState ''1'' True,
           GetTaskReturns 1 (Some False), MutationReturns 1, CallThrows 0] emptyWorld)
   = Some [\<lparr>todoistId = ''1'', checkboxState = True, synced = True, retryAttempts = 1\<rparr>]"
  by (simp add: world_eval stateValues_def Object_values_def isArrayIndex_def isDigit_def toNat_def)

section \<open>Change detector: the id marker (main.ts)\<close>

text \<open>
  A line of the document is a JavaScript string; it is modelled as a list of 8-bit
  characters. The pattern below only names ASCII characters, so every other code unit
  behaves like any character outside the classes.

  \<open>TODOIST_ID_REGEX = /\(\*([a-zA-Z0-9]+)\*\)/\<close> is kept as a syntax tree, and
  \<open>matches\<close> is a backtracking matcher in the order ECMAScript tries alternatives: the
  result list holds every way the pattern can match a prefix of the input, first choice
  first, each with the text captured by the group and the rest of the input. A greedy
  \<open>+\<close> tries a further iteration before it stops, and an iteration that consumes
  nothing ends the repetition.
\<close>

datatype regex =
    Lit char
  | CharClass "(char \<times> char) list"
  | Seq regex regex
  | Plus regex
  | Group regex

definition inClass :: "(char \<times> char) list \<Rightarrow> char \<Rightarrow> bool" where
  "inClass rs c = list_ex (\<lambda>(lo, hi). (of_char lo :: nat) \<le> of_char c \<and> (of_char c :: nat) \<le> of_char hi) rs"

text \<open>The components of a result never grow; the guards below make that visible to the termination proof.\<close>

function matches :: "regex \<Rightarrow> string option \<times> string \<Rightarrow> (string option \<times> string) list" where
  "matches (Lit c) (cap, s) = (case s of [] \<Rightarrow> [] | x # t \<Rightarrow> if x = c then [(cap, t)] else [])"
| "matches (CharClass rs) (cap, s) = (case s of [] \<Rightarrow> [] | x # t \<Rightarrow> if inClass rs x then [(cap, t)] else [])"
| "matches (Seq r1 r2) (cap, s) =
     concat (map (\<lambda>(cap', s'). if length s' \<le> length s then matches r2 (cap', s') else [])
                 (matches r1 (cap, s)))"
| "matches (Plus r) (cap, s) =
     concat (map (\<lambda>(cap', s'). (if length s' < length s then matches (Plus r) (cap', s') else []) @ [(cap', s')])
                 (matches r (cap, s)))"
| "matches (Group r) (cap, s) =
     map (\<lambda>(cap', s'). (Some (take (length s - length s') s), s')) (matches r (cap, s))"
  by pat_completeness auto
termination
  by (relation "inv_image (less_than <*lex*> less_than) (\<lambda>(r, cap, s). (length s, size r))") auto

text \<open>
  \<open>String.prototype.match\<close> with a pattern that has no \<open>g\<close> flag: the leftmost start
  position at which the pattern matches wins, and the result is the capture of the first
  way it matches there. \<open>None\<close> is JavaScript's \<open>null\<close>.
\<close>

fun regexExec :: "regex \<Rightarrow> string \<Rightarrow> string option option" where
  "regexExec r [] = (case matches r (None, []) of [] \<Rightarrow> None | (cap, _) # _ \<Rightarrow> Some cap)"
| "regexExec r (c # s) = (case matches r (None, c # s) of [] \<Rightarrow> regexExec r s | (cap, _) # _ \<Rightarrow> Some cap)"

definition TODOIST_ID_REGEX :: regex where
  "TODOIST_ID_REGEX =
     Seq (Lit (CHR ''(''))
    (Seq (Lit (CHR ''*''))
    (Seq (Group (Plus (CharClass [(CHR ''a'', CHR ''z''), (CHR ''A'', CHR ''Z''), (CHR ''0'', CHR ''9'')])))
    (Seq (Lit (CHR ''*'')) (Lit (CHR '')'')))))"

text \<open>\<open>line.match(TODOIST_ID_REGEX)?.[1] ?? null\<close>\<close>

definition extractTodoistId :: "string \<Rightarrow> string option" where
  "extractTodoistId line = (case regexExec TODOIST_ID_REGEX line of None \<Rightarrow> None | Some cap \<Rightarrow> cap)"



subsection \<open>Where the marker is found\<close>

definition asciiAlnum :: "char \<Rightarrow> bool" where
  "asciiAlnum c \<longleftrightarrow>
     c \<in> set ''abcdefghijklmnopqrstuvwxyzABCDEFGHIJKLMNOPQRSTUVWXYZ0123456789''"

lemma inClass_alnum:
  "inClass [(CHR ''a'', CHR ''z''), (CHR ''A'', CHR ''Z''), (CHR ''0'', CHR ''9'')] c = asciiAlnum c"
proof (cases c)
  case (Char b0 b1 b2 b3 b4 b5 b6 b7)
  then show ?thesis
    by (cases b0; cases b1; cases b2; cases b3; cases b4; cases b5; cases b6; cases b7)
       (simp_all add: inClass_def asciiAlnum_def)
qed

lemma matches_length:
  "(cap', s') \<in> set (matches r (cap, s)) \<Longrightarrow> length s' \<le> length s"
proof (induction r "(cap, s)" arbitrary: cap s cap' s' rule: matches.induct)
  case (1 c cap s)
  then show ?case by (auto split: list.splits if_splits)
next
  case (2 rs cap s)
  then show ?case by (auto split: list.splits if_splits)
next
  case (3 r1 r2 cap s)
  from "3.prems" obtain c1 s1 where
    m1: "(c1, s1) \<in> set (matches r1 (cap, s))" and
    m2: "(cap', s') \<in> set (matches r2 (c1, s1))"
    by (auto split: if_splits)
  from "3.hyps"(1)[OF m1] have l1: "length s1 \<le> length s" .
  from "3.hyps"(2)[OF m1 refl l1 m2] have "length s' \<le> length s1" .
  with l1 show ?case by simp
next
  case (4 r cap s)
  from "4.prems" obtain c1 s1 where
    m1: "(c1, s1) \<in> set (matches r (cap, s))" and
    m2: "(length s1 < length s \<and> (cap', s') \<in> set (matches (Plus r) (c1, s1))) \<or> (cap', s') = (c1, s1)"
    by (subst (asm) matches.simps(4)) (auto simp del: matches.simps(4) split: if_splits)
  from "4.hyps"(1)[OF m1] have l1: "length s1 \<le> length s" .
  from m2 show ?case
  proof
    assume a: "length s1 < length s \<and> (cap', s') \<in> set (matches (Plus r) (c1, s1))"
    then have "length s' \<le> length s1" using "4.hyps"(2)[OF m1 refl] by blast
    with l1 show ?thesis by simp
  next
    assume "(cap', s') = (c1, s1)"
    with l1 show ?thesis by simp
  qed
next
  case (5 r cap s)
  then show ?case by auto
qed


declare matches.simps(4) [simp del]

lemma matches_Plus_CharClass:
  "matches (Plus (CharClass rs)) (cap, s) =
     map (\<lambda>k. (cap, drop k s)) (rev [1..<Suc (length (takeWhile (inClass rs) s))])"
proof (induction s)
  case Nil
  show ?case by (simp add: matches.simps(4))
next
  case (Cons x t)
  show ?case
  proof (cases "inClass rs x")
    case False
    then show ?thesis by (simp add: matches.simps(4))
  next
    case True
    let ?n = "length (takeWhile (inClass rs) t)"
    have "matches (Plus (CharClass rs)) (cap, x # t) =
            matches (Plus (CharClass rs)) (cap, t) @ [(cap, t)]"
      using True by (simp add: matches.simps(4))
    also have "\<dots> = map (\<lambda>k. (cap, drop k t)) (rev [1..<Suc ?n]) @ [(cap, t)]"
      by (simp only: Cons.IH)
    also have "\<dots> = map (\<lambda>k. (cap, drop k (x # t))) (rev (map Suc [1..<Suc ?n])) @
                      map (\<lambda>k. (cap, drop k (x # t))) [1]"
      by (simp add: rev_map comp_def)
    also have "\<dots> = map (\<lambda>k. (cap, drop k (x # t))) (rev (1 # map Suc [1..<Suc ?n]))"
      by simp
    also have "1 # map Suc [1..<Suc ?n] = [1..<Suc (Suc ?n)]"
      by (simp add: upt_conv_Cons map_Suc_upt del: upt_Suc)
    finally show ?thesis using True by simp
  qed
qed


lemma matches_Seq:
  "matches (Seq r1 r2) (cap, s) = concat (map (matches r2) (matches r1 (cap, s)))"
proof -
  have "map (\<lambda>(cap', s'). if length s' \<le> length s then matches r2 (cap', s') else [])
            (matches r1 (cap, s)) = map (matches r2) (matches r1 (cap, s))"
    by (rule map_cong[OF refl]) (auto dest: matches_length)
  then show ?thesis by (simp only: matches.simps(3))
qed

lemma concat_map_downto:
  assumes "\<And>k. 1 \<le> k \<Longrightarrow> k < n \<Longrightarrow> f k = []"
  shows "concat (map f (rev [1..<Suc n])) = (if n = 0 then [] else f n)"
  using assms
proof (induction n)
  case 0
  show ?case by simp
next
  case (Suc n)
  have "concat (map f (rev [1..<Suc n])) = (if n = 0 then [] else f n)"
    using Suc.prems by (intro Suc.IH) simp
  moreover have "n \<noteq> 0 \<Longrightarrow> f n = []"
    using Suc.prems[of n] by simp
  ultimately have "concat (map f (rev [1..<Suc n])) = []"
    by simp
  then show ?case by simp
qed

definition markerTail :: "string option \<times> string \<Rightarrow> (string option \<times> string) list" where
  "markerTail = matches (Seq (Lit (CHR ''*'')) (Lit (CHR '')'')))"

lemma markerTail_alnum: "asciiAlnum x \<Longrightarrow> markerTail (cap, x # t) = []"
  by (auto simp: markerTail_def matches_Seq asciiAlnum_def)

lemma markerTail_eq:
  "markerTail (cap, s) =
     (case s of c1 # c2 # u \<Rightarrow> if c1 = CHR ''*'' \<and> c2 = CHR '')'' then [(cap, u)] else [] | _ \<Rightarrow> [])"
  by (auto simp: markerTail_def matches_Seq split: list.splits)

lemma matches_id_body:
  "concat (map markerTail
      (matches (Group (Plus (CharClass [(CHR ''a'', CHR ''z''), (CHR ''A'', CHR ''Z''), (CHR ''0'', CHR ''9'')]))) (cap, t)))
   = (if takeWhile asciiAlnum t = [] then []
      else markerTail (Some (takeWhile asciiAlnum t), dropWhile asciiAlnum t))"
proof -
  let ?n = "length (takeWhile asciiAlnum t)"
  let ?f = "\<lambda>k. markerTail (Some (take k t), drop k t)"
  have alnum: "inClass [(CHR ''a'', CHR ''z''), (CHR ''A'', CHR ''Z''), (CHR ''0'', CHR ''9'')] = asciiAlnum"
    by (rule ext) (rule inClass_alnum)
  have n_le: "?n \<le> length t"
    by (rule length_takeWhile_le)
  have grp: "matches (Group (Plus (CharClass [(CHR ''a'', CHR ''z''), (CHR ''A'', CHR ''Z''), (CHR ''0'', CHR ''9'')]))) (cap, t)
             = map (\<lambda>k. (Some (take k t), drop k t)) (rev [1..<Suc ?n])"
    using n_le by (auto simp: matches_Plus_CharClass alnum rev_map comp_def)
  have short: "?f k = []" if "1 \<le> k" "k < ?n" for k
  proof -
    from that n_le have lt: "k < length t" by simp
    have "asciiAlnum (t ! k)"
      using that(2) by (metis takeWhile_nth nth_mem set_takeWhileD)
    moreover have "drop k t = t ! k # drop (Suc k) t"
      using lt by (simp add: Cons_nth_drop_Suc)
    ultimately show ?thesis by (simp add: markerTail_alnum)
  qed
  have "concat (map markerTail (map (\<lambda>k. (Some (take k t), drop k t)) (rev [1..<Suc ?n])))
        = concat (map ?f (rev [1..<Suc ?n]))"
    by (simp add: comp_def)
  also have "\<dots> = (if ?n = 0 then [] else ?f ?n)"
    by (rule concat_map_downto) (rule short)
  also have "\<dots> = (if takeWhile asciiAlnum t = [] then []
      else markerTail (Some (takeWhile asciiAlnum t), dropWhile asciiAlnum t))"
    by (simp add: takeWhile_eq_take[symmetric] dropWhile_eq_drop[symmetric])
  finally show ?thesis by (simp only: grp)
qed


lemma matches_TODOIST_ID_REGEX:
  "matches TODOIST_ID_REGEX (None, s) =
     (case s of
        c1 # c2 # t \<Rightarrow>
          if c1 = CHR ''('' \<and> c2 = CHR ''*'' \<and> takeWhile asciiAlnum t \<noteq> []
          then markerTail (Some (takeWhile asciiAlnum t), dropWhile asciiAlnum t) else []
      | _ \<Rightarrow> [])"
proof -
  let ?G = "Group (Plus (CharClass [(CHR ''a'', CHR ''z''), (CHR ''A'', CHR ''Z''), (CHR ''0'', CHR ''9'')]))"
  let ?R2 = "Seq ?G (Seq (Lit (CHR ''*'')) (Lit (CHR '')'')))"
  let ?R1 = "Seq (Lit (CHR ''*'')) ?R2"
  have r2: "matches ?R2 (None, t) =
      (if takeWhile asciiAlnum t = [] then []
       else markerTail (Some (takeWhile asciiAlnum t), dropWhile asciiAlnum t))" for t
    unfolding matches_Seq[of ?G] markerTail_def[symmetric] by (rule matches_id_body)
  have r1: "matches ?R1 (None, u) =
      (case u of [] \<Rightarrow> [] | c2 # t \<Rightarrow> if c2 = CHR ''*'' then matches ?R2 (None, t) else [])" for u
    unfolding matches_Seq[of "Lit (CHR ''*'')" ?R2] by (simp split: list.splits)
  have r0: "matches (Seq (Lit (CHR ''('')) ?R1) (None, s) =
      (case s of [] \<Rightarrow> [] | c1 # u \<Rightarrow> if c1 = CHR ''('' then matches ?R1 (None, u) else [])"
    unfolding matches_Seq[of "Lit (CHR ''('')" ?R1] by (simp split: list.splits)
  show ?thesis
    unfolding TODOIST_ID_REGEX_def r0 r1 r2 by (simp split: list.splits)
qed

definition idMarkerAt :: "string \<Rightarrow> string \<Rightarrow> string \<Rightarrow> string \<Rightarrow> bool" where
  "idMarkerAt line pre s post \<longleftrightarrow>
     line = pre @ ''(*'' @ s @ ''*)'' @ post \<and> s \<noteq> [] \<and> list_all asciiAlnum s"

lemma not_alnum_star: "\<not> asciiAlnum (CHR ''*'')"
  by (simp add: asciiAlnum_def)

lemma match_here_complete:
  assumes "idMarkerAt s [] tid rest"
  shows "matches TODOIST_ID_REGEX (None, s) = [(Some tid, rest)]"
proof -
  from assms have s: "s = CHR ''('' # CHR ''*'' # (tid @ CHR ''*'' # CHR '')'' # rest)"
    and ne: "tid \<noteq> []" and al: "\<forall>x\<in>set tid. asciiAlnum x"
    by (simp_all add: idMarkerAt_def list_all_iff)
  have tw: "takeWhile asciiAlnum (tid @ CHR ''*'' # CHR '')'' # rest) = tid"
    using al by (simp add: takeWhile_tail not_alnum_star)
  have dw: "dropWhile asciiAlnum (tid @ CHR ''*'' # CHR '')'' # rest) = CHR ''*'' # CHR '')'' # rest"
    using al by (simp add: dropWhile_append3 not_alnum_star)
  show ?thesis
    by (simp add: s matches_TODOIST_ID_REGEX tw dw ne markerTail_eq)
qed

lemma match_here_sound:
  assumes "matches TODOIST_ID_REGEX (None, s) = (cap, rest) # ms"
  shows "\<exists>tid. cap = Some tid \<and> idMarkerAt s [] tid rest"
proof -
  from assms obtain t where s: "s = CHR ''('' # CHR ''*'' # t"
    and ne: "takeWhile asciiAlnum t \<noteq> []"
    and mt: "markerTail (Some (takeWhile asciiAlnum t), dropWhile asciiAlnum t) = (cap, rest) # ms"
    by (auto simp: matches_TODOIST_ID_REGEX split: list.splits if_splits)
  from mt have cap: "cap = Some (takeWhile asciiAlnum t)"
    and dw: "dropWhile asciiAlnum t = CHR ''*'' # CHR '')'' # rest"
    by (auto simp: markerTail_eq split: list.splits if_splits)
  have "t = takeWhile asciiAlnum t @ dropWhile asciiAlnum t" by simp
  with dw have t: "t = takeWhile asciiAlnum t @ CHR ''*'' # CHR '')'' # rest" by simp
  have "list_all asciiAlnum (takeWhile asciiAlnum t)"
    by (auto simp: list_all_iff dest: set_takeWhileD)
  with ne s t cap show ?thesis
    by (auto simp: idMarkerAt_def)
qed

lemma regexExec_None_iff:
  "regexExec r line = None \<longleftrightarrow> (\<forall>pre s. line = pre @ s \<longrightarrow> matches r (None, s) = [])"
proof (induction line)
  case Nil
  show ?case by (auto split: list.splits)
next
  case (Cons c l)
  have "(\<forall>pre s. c # l = pre @ s \<longrightarrow> matches r (None, s) = []) \<longleftrightarrow>
        matches r (None, c # l) = [] \<and> (\<forall>pre s. l = pre @ s \<longrightarrow> matches r (None, s) = [])"
    by (auto simp: Cons_eq_append_conv)
  with Cons.IH show ?case by (auto split: list.splits)
qed

lemma regexExec_Some:
  "regexExec r line = Some cap \<Longrightarrow>
     \<exists>pre s rest ms. line = pre @ s \<and> matches r (None, s) = (cap, rest) # ms \<and>
        (\<forall>pre' s'. line = pre' @ s' \<and> length pre' < length pre \<longrightarrow> matches r (None, s') = [])"
proof (induction line)
  case Nil
  then obtain rest ms where "matches r (None, []) = (cap, rest) # ms"
    by (auto split: list.splits)
  then show ?case by auto
next
  case (Cons c l)
  show ?case
  proof (cases "matches r (None, c # l)")
    case Nil
    with Cons.prems have "regexExec r l = Some cap" by simp
    from Cons.IH[OF this] obtain pre s rest ms where
      l: "l = pre @ s" and m: "matches r (None, s) = (cap, rest) # ms" and
      first: "\<forall>pre' s'. l = pre' @ s' \<and> length pre' < length pre \<longrightarrow> matches r (None, s') = []"
      by blast
    have "\<forall>pre' s'. c # l = pre' @ s' \<and> length pre' < length (c # pre) \<longrightarrow> matches r (None, s') = []"
      using first Nil by (auto simp: Cons_eq_append_conv)
    with l m show ?thesis
      by (metis append_Cons)
  next
    case (Cons m ms)
    with Cons.prems have "matches r (None, c # l) = (cap, snd m) # ms"
      by (cases m) simp
    then show ?thesis
      by (metis append_Nil list.size(3) not_less_zero)
  qed
qed

text \<open>
  C10: \<open>extractTodoistId\<close> returns an id exactly when the line holds an occurrence of
  \<open>(*s*)\<close> with \<open>s\<close> a non-empty string of ASCII letters and digits, and the id it
  returns is the \<open>s\<close> of the leftmost such occurrence, wherever in the line that is.
  The predicate \<open>idMarkerAt line pre s post\<close> says so in the claim's words:
  \<open>line = pre @ (*s*) @ post\<close>. A marker whose id holds any other character is no such
  occurrence: an id with such a character is never returned, and a line that holds no
  other marker gives \<open>None\<close>.
\<close>

theorem extractTodoistId_marker:
  "(extractTodoistId line \<noteq> None \<longleftrightarrow> (\<exists>pre s post. idMarkerAt line pre s post)) \<and>
   (\<forall>s. extractTodoistId line = Some s \<longrightarrow>
      (\<exists>pre post. idMarkerAt line pre s post \<and>
         (\<forall>pre' s' post'. idMarkerAt line pre' s' post' \<longrightarrow> length pre \<le> length pre'))) \<and>
   (\<forall>s. \<not> list_all asciiAlnum s \<longrightarrow> extractTodoistId line \<noteq> Some s)"
proof (intro conjI allI impI iffI)
  fix s assume bad: "\<not> list_all asciiAlnum s"
  show "extractTodoistId line \<noteq> Some s"
  proof
    assume "extractTodoistId line = Some s"
    then have "regexExec TODOIST_ID_REGEX line = Some (Some s)"
      by (auto simp: extractTodoistId_def split: option.splits)
    from regexExec_Some[OF this] obtain u rest ms where
      "matches TODOIST_ID_REGEX (None, u) = (Some s, rest) # ms" by blast
    from match_here_sound[OF this] bad show False
      by (simp add: idMarkerAt_def)
  qed
next
  assume "extractTodoistId line \<noteq> None"
  then obtain s where "regexExec TODOIST_ID_REGEX line = Some (Some s)"
    by (auto simp: extractTodoistId_def split: option.splits)
  from regexExec_Some[OF this] obtain pre u rest ms where
    "line = pre @ u" "matches TODOIST_ID_REGEX (None, u) = (Some s, rest) # ms" by blast
  with match_here_sound[of u "Some s" rest ms] have "idMarkerAt line pre s rest"
    by (auto simp: idMarkerAt_def)
  then show "\<exists>pre s post. idMarkerAt line pre s post" by blast
next
  assume "\<exists>pre s post. idMarkerAt line pre s post"
  then obtain pre s post where m: "idMarkerAt line pre s post" by blast
  then have "idMarkerAt (''(*'' @ s @ ''*)'' @ post) [] s post" and l: "line = pre @ (''(*'' @ s @ ''*)'' @ post)"
    by (auto simp: idMarkerAt_def)
  from match_here_complete[OF this(1)] l
  have "regexExec TODOIST_ID_REGEX line \<noteq> None"
    unfolding regexExec_None_iff by (metis list.distinct(1))
  moreover have "regexExec TODOIST_ID_REGEX line \<noteq> Some None"
  proof
    assume "regexExec TODOIST_ID_REGEX line = Some None"
    from regexExec_Some[OF this] match_here_sound show False by blast
  qed
  ultimately show "extractTodoistId line \<noteq> None"
    by (auto simp: extractTodoistId_def split: option.splits)
next
  fix s assume "extractTodoistId line = Some s"
  then have "regexExec TODOIST_ID_REGEX line = Some (Some s)"
    by (auto simp: extractTodoistId_def split: option.splits)
  from regexExec_Some[OF this] obtain pre u rest ms where
    l: "line = pre @ u" and m: "matches TODOIST_ID_REGEX (None, u) = (Some s, rest) # ms" and
    first: "\<forall>pre' s'. line = pre' @ s' \<and> length pre' < length pre \<longrightarrow> matches TODOIST_ID_REGEX (None, s') = []"
    by blast
  from match_here_sound[OF m] l have here: "idMarkerAt line pre s rest"
    by (auto simp: idMarkerAt_def)
  have "length pre \<le> length pre'" if "idMarkerAt line pre' s' post'" for pre' s' post'
  proof (rule ccontr)
    assume "\<not> length pre \<le> length pre'"
    then have lt: "length pre' < length pre" by simp
    from that have "idMarkerAt (''(*'' @ s' @ ''*)'' @ post') [] s' post'"
      and l': "line = pre' @ (''(*'' @ s' @ ''*)'' @ post')"
      by (auto simp: idMarkerAt_def)
    from match_here_complete[OF this(1)] first l' lt show False
      by (metis list.distinct(1))
  qed
  with here show "\<exists>pre post. idMarkerAt line pre s post \<and>
         (\<forall>pre' s' post'. idMarkerAt line pre' s' post' \<longrightarrow> length pre \<le> length pre')"
    by blast
qed

theorem extractTodoistId_marker_witness:
  "extractTodoistId ''- [ ] Buy milk (*abc123*) x (*zz9*)'' = Some ''abc123'' \<and>
   (\<exists>pre post. idMarkerAt ''- [ ] Buy milk (*abc123*) x (*zz9*)'' pre ''abc123'' post \<and>
      length pre \<le> 15) \<and>
   extractTodoistId ''- [ ] Buy milk (*abc-123*)'' = None \<and>
   \<not> (\<exists>pre s post. idMarkerAt ''- [ ] Buy milk (*abc-123*)'' pre s post) \<and>
   \<not> list_all asciiAlnum ''abc-123'' \<and>
   extractTodoistId ''- [ ] Buy milk (*abc-123*)'' \<noteq> Some ''abc-123''"
proof -
  let ?l1 = "''- [ ] Buy milk (*abc123*) x (*zz9*)''"
  let ?l2 = "''- [ ] Buy milk (*abc-123*)''"
  have e1: "extractTodoistId ?l1 = Some ''abc123''"
    by (simp add: extractTodoistId_def TODOIST_ID_REGEX_def inClass_def matches.simps(4))
  have e2: "extractTodoistId ?l2 = None"
    by (simp add: extractTodoistId_def TODOIST_ID_REGEX_def inClass_def matches.simps(4))
  have here: "idMarkerAt ?l1 ''- [ ] Buy milk '' ''abc123'' '' x (*zz9*)''"
    by (simp add: idMarkerAt_def asciiAlnum_def)
  from extractTodoistId_marker[of ?l1] e1
  obtain pre post where found: "idMarkerAt ?l1 pre ''abc123'' post"
    and leftmost: "\<forall>pre' s' post'. idMarkerAt ?l1 pre' s' post' \<longrightarrow> length pre \<le> length pre'"
    by blast
  from leftmost here have "length pre \<le> length ''- [ ] Buy milk ''" by blast
  then have "length pre \<le> 15" by simp
  with found have m1: "\<exists>pre post. idMarkerAt ?l1 pre ''abc123'' post \<and> length pre \<le> 15"
    by blast
  from extractTodoistId_marker[of ?l2] e2
  have m2: "\<not> (\<exists>pre s post. idMarkerAt ?l2 pre s post)"
    by simp
  have bad: "\<not> list_all asciiAlnum ''abc-123''"
    by (simp add: asciiAlnum_def)
  with extractTodoistId_marker[of ?l2] have m3: "extractTodoistId ?l2 \<noteq> Some ''abc-123''"
    by blast
  from e1 e2 m1 m2 bad m3 show ?thesis by blast
qed

section \<open>Change detector: lines without an id marker (main.ts)\<close>

text \<open>
  \<open>String.prototype.indexOf\<close> from position 0: the first position at which the pattern
  occurs.
\<close>

fun indexOf :: "string \<Rightarrow> string \<Rightarrow> nat option" where
  "indexOf [] pat = (if pat = [] then Some 0 else None)"
| "indexOf (c # s) pat =
     (if take (length pat) (c # s) = pat then Some 0 else map_option Suc (indexOf s pat))"

text \<open>\<open>line.contains(...)\<close>, Obsidian's name for \<open>String.prototype.includes\<close>.\<close>

definition contains :: "string \<Rightarrow> string \<Rightarrow> bool" where
  "contains s pat \<longleftrightarrow> indexOf s pat \<noteq> None"

text \<open>
  \<open>String.prototype.replace\<close> with a string pattern replaces the first occurrence only,
  and expands the replacement text: \<open>$$\<close> is a dollar sign, \<open>$&\<close> the matched text,
  \<open>$`\<close> the text before the match and \<open>$'\<close> the text after it. A pattern that is a
  string has no groups, so any other \<open>$\<close> stands for itself. The arguments of
  \<open>getSubstitution\<close> are the matched text, the text before it, the text after it and
  the replacement.
\<close>

fun getSubstitution :: "string \<Rightarrow> string \<Rightarrow> string \<Rightarrow> string \<Rightarrow> string" where
  "getSubstitution m pre post [] = []"
| "getSubstitution m pre post [c] = [c]"
| "getSubstitution m pre post (c # d # t) =
     (if c = CHR ''$'' \<and> d = CHR ''$'' then CHR ''$'' # getSubstitution m pre post t
      else if c = CHR ''$'' \<and> d = CHR ''&'' then m @ getSubstitution m pre post t
      else if c = CHR ''$'' \<and> d = CHR 0x60 then pre @ getSubstitution m pre post t
      else if c = CHR ''$'' \<and> d = CHR 0x27 then post @ getSubstitution m pre post t
      else c # getSubstitution m pre post (d # t))"

definition replace :: "string \<Rightarrow> string \<Rightarrow> string \<Rightarrow> string" where
  "replace s pat rep =
     (case indexOf s pat of
        None \<Rightarrow> s
      | Some i \<Rightarrow>
          (let pre = take i s; post = drop (i + length pat) s
           in pre @ getSubstitution pat pre post rep @ post))"

text \<open>
  \<open>String.prototype.trim\<close>: the white space and line terminators among the code units
  below 256 are tab, line feed, vertical tab, form feed, carriage return, space and the
  no-break space.
\<close>

definition isWhiteSpace :: "char \<Rightarrow> bool" where
  "isWhiteSpace c \<longleftrightarrow> (of_char c :: nat) \<in> {9, 10, 11, 12, 13, 32, 160}"

definition trim :: "string \<Rightarrow> string" where
  "trim s = rev (dropWhile isWhiteSpace (rev (dropWhile isWhiteSpace s)))"

text \<open>\<open>Array.prototype.join\<close>\<close>

fun join :: "string list \<Rightarrow> string \<Rightarrow> string" where
  "join [] sep = []"
| "join [x] sep = x"
| "join (x # y # ys) sep = x @ sep @ join (y # ys) sep"

text \<open>
  What the handler reads of the task that \<open>addTask\<close> returns, and the outcome of an
  awaited call.
\<close>

record NewTask =
  task_id :: string
  task_projectId :: string
  task_labels :: "string list"

datatype 'a reply = Rejects | Resolves 'a

text \<open>
  What the handler does for one checkbox line (lines 64--81): it skips the line, or calls
  \<open>updateState\<close> with the id found and whether the box holds \<open>x\<close>, or creates a task,
  writes the new line and then calls \<open>updateState\<close>, or stops because an awaited call
  rejected. The remote calls issued are listed in order.
\<close>

datatype handled =
    Ignored
  | Tracked string bool
  | Created "remote_call list" string string bool
  | Failed "remote_call list"

text \<open>Line 68: \<open>line.replace('- [ ]', '').replace('#todoist', '').trim()\<close>\<close>

definition taskContent :: "string \<Rightarrow> string" where
  "taskContent line = trim (replace (replace line ''- [ ]'' '''') ''#todoist'' '''')"

text \<open>Lines 72--73.\<close>

definition newLine :: "string \<Rightarrow> string \<Rightarrow> NewTask \<Rightarrow> string" where
  "newLine line projectName newTask =
     (let labels = join (map (\<lambda>label. ''#todoist/'' @ label) (task_labels newTask)) '' ''
      in replace line ''#todoist'' (''#todoist/'' @ projectName) @ labels @
         '' (*'' @ task_id newTask @ ''*)'')"

text \<open>\<open>!todoistId\<close>: \<open>null\<close> and the empty string are falsy.\<close>

definition falsy :: "string option \<Rightarrow> bool" where
  "falsy x \<longleftrightarrow> x = None \<or> x = Some []"

text \<open>
  The body of the loop, given the line, the text in the box, and the outcomes of
  \<open>addTask\<close>, of \<open>getProject\<close> (the project's name, if it has one) and of
  \<open>vault.modify\<close>.
\<close>

definition onChanged_checkbox ::
  "string \<Rightarrow> string \<Rightarrow> NewTask reply \<Rightarrow> string option reply \<Rightarrow> unit reply \<Rightarrow> handled" where
  "onChanged_checkbox line task addTask getProject modify =
     (let todoistId = extractTodoistId line in
      if falsy todoistId then
        if contains line ''#todoist'' then
          (let content = taskContent line in
           case addTask of
             Rejects \<Rightarrow> Failed [AddTask content]
           | Resolves newTask \<Rightarrow>
               (case getProject of
                  Rejects \<Rightarrow> Failed [AddTask content, GetProject (task_projectId newTask)]
                | Resolves project \<Rightarrow>
                    (let projectName = (case project of None \<Rightarrow> ''Inbox'' | Some name \<Rightarrow> name)
                     in case modify of
                          Rejects \<Rightarrow> Failed [AddTask content, GetProject (task_projectId newTask)]
                        | Resolves _ \<Rightarrow>
                            Created [AddTask content, GetProject (task_projectId newTask)]
                              (newLine line projectName newTask) (task_id newTask) (task = ''x''))))
        else Ignored
      else Tracked (the todoistId) (task = ''x''))"


text \<open>
  The words of a line: the pieces between white space characters (a piece is empty where
  two of them meet). The tag is present as a token when it is one of the words.
\<close>

fun splitWhiteSpace :: "string \<Rightarrow> string list" where
  "splitWhiteSpace [] = [[]]"
| "splitWhiteSpace (c # s) =
     (if isWhiteSpace c then [] # splitWhiteSpace s
      else (case splitWhiteSpace s of [] \<Rightarrow> [[c]] | t # ts \<Rightarrow> (c # t) # ts))"

subsection \<open>Creating the task and rewriting the line\<close>

lemma indexOf_split:
  "indexOf s pat = Some i \<Longrightarrow> s = take i s @ pat @ drop (i + length pat) s"
proof (induction s arbitrary: i)
  case Nil
  then show ?case by (simp split: if_splits)
next
  case (Cons c s)
  show ?case
  proof (cases "take (length pat) (c # s) = pat")
    case True
    with Cons.prems have "i = 0" by simp
    moreover have "c # s = take (length pat) (c # s) @ drop (length pat) (c # s)"
      by (simp only: append_take_drop_id)
    ultimately show ?thesis using True by simp
  next
    case False
    with Cons.prems obtain i' where i: "i = Suc i'" and "indexOf s pat = Some i'"
      by auto
    from Cons.IH[OF this(2)] have "s = take i' s @ pat @ drop (i' + length pat) s" .
    with i show ?thesis by simp
  qed
qed

lemma indexOf_first:
  "indexOf s pat = Some i \<Longrightarrow> s = pre @ pat @ post \<Longrightarrow> i \<le> length pre"
proof (induction s arbitrary: i pre)
  case Nil
  then show ?case by (simp split: if_splits)
next
  case (Cons c s)
  show ?case
  proof (cases "take (length pat) (c # s) = pat")
    case True
    with Cons.prems(1) have "i = 0" by simp
    then show ?thesis by simp
  next
    case False
    with Cons.prems(1) obtain i' where i: "i = Suc i'" and i': "indexOf s pat = Some i'"
      by auto
    from False Cons.prems(2) obtain pre' where pre: "pre = c # pre'" and s: "s = pre' @ pat @ post"
      by (cases pre) auto
    from Cons.IH[OF i' s] i pre show ?thesis by simp
  qed
qed

lemma getSubstitution_plain:
  "CHR ''$'' \<notin> set t \<Longrightarrow> getSubstitution m pre post t = t"
  by (induction m pre post t rule: getSubstitution.induct) auto

lemma getSubstitution_append:
  "CHR ''$'' \<notin> set a \<Longrightarrow> getSubstitution m pre post (a @ b) = a @ getSubstitution m pre post b"
proof (induction a)
  case Nil
  show ?case by simp
next
  case (Cons c a)
  then have c: "c \<noteq> CHR ''$''" and a: "CHR ''$'' \<notin> set a" by auto
  show ?case
  proof (cases "a @ b")
    case Nil
    then show ?thesis by simp
  next
    case (Cons d t)
    with c have "getSubstitution m pre post (c # a @ b) = c # getSubstitution m pre post (a @ b)"
      by simp
    with Cons.IH[OF a] show ?thesis by simp
  qed
qed

text \<open>
  What the handler does with a checklist line that holds \<open>#todoist\<close> and no id marker:
  it calls \<open>addTask\<close> with the content computed by line 68, asks for the task's
  project, and writes back the line with the first occurrence of \<open>#todoist\<close> replaced
  by \<open>#todoist/\<close> and the project's name (\<open>Inbox\<close> when there is none), followed by
  the \<open>#todoist/label\<close> tags and the marker \<open>(*id*)\<close> of the new task at the end. A
  project name without a dollar sign is copied as it is.
\<close>

lemma onChanged_rewrites_line:
  assumes "extractTodoistId line = None" and "contains line ''#todoist''"
    and "projectName = (case project of None \<Rightarrow> ''Inbox'' | Some name \<Rightarrow> name)"
  shows "\<exists>pre post.
           line = pre @ ''#todoist'' @ post \<and>
           (\<forall>pre' post'. line = pre' @ ''#todoist'' @ post' \<longrightarrow> length pre \<le> length pre') \<and>
           onChanged_checkbox line task (Resolves newTask) (Resolves project) (Resolves ()) =
             Created [AddTask (taskContent line), GetProject (task_projectId newTask)]
               (pre @ ''#todoist/'' @ getSubstitution ''#todoist'' pre post projectName @ post @
                  join (map (\<lambda>label. ''#todoist/'' @ label) (task_labels newTask)) '' '' @
                  '' (*'' @ task_id newTask @ ''*)'')
               (task_id newTask) (task = ''x'') \<and>
           (CHR ''$'' \<notin> set projectName \<longrightarrow>
              getSubstitution ''#todoist'' pre post projectName = projectName)"
proof -
  from assms(2) obtain i where i: "indexOf line ''#todoist'' = Some i"
    by (auto simp: contains_def)
  let ?pre = "take i line" and ?post = "drop (i + length ''#todoist'') line"
  from indexOf_split[OF i] have split: "line = ?pre @ ''#todoist'' @ ?post" .
  have first: "length ?pre \<le> length pre'" if "line = pre' @ ''#todoist'' @ post'" for pre' post'
    using indexOf_first[OF i that] by simp
  have sub: "getSubstitution ''#todoist'' ?pre ?post (''#todoist/'' @ projectName)
             = ''#todoist/'' @ getSubstitution ''#todoist'' ?pre ?post projectName"
    by (rule getSubstitution_append) simp
  have rep: "replace line ''#todoist'' (''#todoist/'' @ projectName)
             = ?pre @ ''#todoist/'' @ getSubstitution ''#todoist'' ?pre ?post projectName @ ?post"
    unfolding replace_def i using sub by (simp add: Let_def)
  have run: "onChanged_checkbox line task (Resolves newTask) (Resolves project) (Resolves ()) =
             Created [AddTask (taskContent line), GetProject (task_projectId newTask)]
               (?pre @ ''#todoist/'' @ getSubstitution ''#todoist'' ?pre ?post projectName @ ?post @
                  join (map (\<lambda>label. ''#todoist/'' @ label) (task_labels newTask)) '' '' @
                  '' (*'' @ task_id newTask @ ''*)'')
               (task_id newTask) (task = ''x'')"
    using assms(1,2) rep
    by (simp add: onChanged_checkbox_def falsy_def newLine_def Let_def assms(3)[symmetric])
  show ?thesis
    using split first run getSubstitution_plain by blast
qed

text \<open>
  C9: the task is to be created from the line's content with the checkbox syntax and the
  tag stripped, and the rewritten line is to have the new id marker and the derived tags
  and no longer the tag itself. The code does this for a line such as
  \<open>- [ ] Buy milk #todoist\<close>, and misses two cases. Line 68 strips the checkbox syntax
  only in the form \<open>- [ ]\<close>, so on a checked line the task's content starts with
  \<open>- [x]\<close>. And lines 68 and 73 call \<open>replace\<close> with a string pattern, which replaces
  the first occurrence only: on a line that holds the tag twice, the second \<open>#todoist\<close>
  stays in the task's content and stays in the rewritten line, as a word of its own.
\<close>

theorem onChanged_content_not_stripped:
  "onChanged_checkbox ''- [ ] Buy milk #todoist'' '' ''
     (Resolves \<lparr>task_id = ''42'', task_projectId = ''p1'', task_labels = [''home'']\<rparr>)
     (Resolves None) (Resolves ())
   = Created [AddTask ''Buy milk'', GetProject ''p1'']
       ''- [ ] Buy milk #todoist/Inbox#todoist/home (*42*)'' ''42'' False \<and>
   onChanged_checkbox ''- [x] Buy milk #todoist'' ''x''
     (Resolves \<lparr>task_id = ''42'', task_projectId = ''p1'', task_labels = [''home'']\<rparr>)
     (Resolves None) (Resolves ())
   = Created [AddTask ''- [x] Buy milk'', GetProject ''p1'']
       ''- [x] Buy milk #todoist/Inbox#todoist/home (*42*)'' ''42'' True \<and>
   onChanged_checkbox ''- [ ] Buy #todoist milk #todoist today'' '' ''
     (Resolves \<lparr>task_id = ''42'', task_projectId = ''p1'', task_labels = [''home'']\<rparr>)
     (Resolves None) (Resolves ())
   = Created [AddTask ''Buy  milk #todoist today'', GetProject ''p1'']
       ''- [ ] Buy #todoist/Inbox milk #todoist today#todoist/home (*42*)'' ''42'' False \<and>
   ''#todoist'' \<in> set (splitWhiteSpace ''- [ ] Buy #todoist/Inbox milk #todoist today#todoist/home (*42*)'') \<and>
   ''#todoist'' \<notin> set (splitWhiteSpace ''- [ ] Buy milk #todoist/Inbox#todoist/home (*42*)'')"
  by (simp add: onChanged_checkbox_def extractTodoistId_def TODOIST_ID_REGEX_def inClass_def
        matches.simps(4) falsy_def contains_def taskContent_def newLine_def replace_def trim_def
        isWhiteSpace_def Let_def)

subsection \<open>A line whose id is the name of an inherited member\<close>

text \<open>
  C6: for a task id that is not in the store, \<open>updateState\<close> is to add an entry with
  the observed \<open>checkboxState\<close>, \<open>synced = true\<close> and \<open>retryAttempts = 0\<close>, and to
  make no remote call (the comment of line 124: the first time the task is seen, the
  current state is taken as already synced). The code does this only for an id that the
  lookup of line 122 finds nothing for, and the lookup also finds what the store inherits.

  The line \<open>- [x] Buy milk (*constructor*)\<close> has the id \<open>constructor\<close>, and the handler
  passes it to \<open>updateState\<close>. In the empty store the id has no entry. \<open>updateState\<close>
  adds none: it stores the observed values on the inherited member and starts a sync
  attempt on it, which calls \<open>getTask\<close> with \<open>undefined\<close> for the id.
\<close>

theorem updateState_inherited_name:
  "onChanged_checkbox ''- [x] Buy milk (*constructor*)'' ''x'' Rejects Rejects Rejects
     = Tracked ''constructor'' True \<and>
   store_get (taskStates emptyWorld) ''constructor'' = None \<and>
   map_option (\<lambda>w. (taskStates w, calls w, builtinAttempts w, builtins w ''constructor''))
     (step (UpdateState ''constructor'' True) emptyWorld)
   = Some ([], [GetTaskUndefined], [BuiltinActivation ''constructor'' BuiltinAwaitGetTask],
           \<lparr>own_checkboxState = Some True, own_synced = Some False,
            own_retryAttempts = Count 0\<rparr>)"
  by (simp add: onChanged_checkbox_def extractTodoistId_def TODOIST_ID_REGEX_def inClass_def
        matches.simps(4) falsy_def world_eval syncState_builtin_def)

end
